theory Spec2Isabelle
  imports Main "HOL-Library.Product_Lexorder" "HOL-Library.Sublist"
begin

section \<open>Python strings\<close>

text \<open>
  A Python \<open>str\<close> is a sequence of Unicode code points; a code point is an
  integer, so that the non-breaking space and the dashes that \<open>_normalize_text\<close>
  replaces are single characters, as they are in the source.
\<close>

type_synonym pystr = "int list"

definition str :: "string \<Rightarrow> pystr" where
  "str s = map of_char s"

text \<open>
  What Python knows about code points above 127 comes from the Unicode character
  database, which is not part of the repository. It is a parameter of the model: the
  decimal value of a non-ASCII digit (\<open>\d\<close>, \<open>int\<close>), the non-ASCII alphanumerics
  (\<open>\w\<close>, \<open>\b\<close>), the case folding used by \<open>re.IGNORECASE\<close>, and the lower-casing of
  the non-ASCII character at a position of a string (\<open>str.lower\<close>, which depends on
  the context for Greek sigma). On ASCII the functions below are fixed. The C library
  shows in one place: \<open>strftime("%Y")\<close> writes a year below 1000 with four digits on
  some platforms (the documented form, \<open>0999\<close>) and without leading zeros on others
  (glibc, \<open>999\<close>); \<open>year_padded\<close> says which.
\<close>

record platform =
  u_digit :: "int \<Rightarrow> int option"
  u_alnum :: "int \<Rightarrow> bool"
  u_fold :: "int \<Rightarrow> int"
  u_lower :: "pystr \<Rightarrow> nat \<Rightarrow> pystr"
  year_padded :: bool

definition ascii_only :: platform where
  "ascii_only = \<lparr>u_digit = (\<lambda>c. None), u_alnum = (\<lambda>c. False), u_fold = (\<lambda>c. c),
                 u_lower = (\<lambda>s i. [s ! i]), year_padded = True\<rparr>"

definition glibc_ascii :: platform where
  "glibc_ascii = ascii_only\<lparr>year_padded := False\<rparr>"

definition ascii_lower :: "int \<Rightarrow> int" where
  "ascii_lower c = (if 65 \<le> c \<and> c \<le> 90 then c + 32 else c)"

definition str_lower :: "platform \<Rightarrow> pystr \<Rightarrow> pystr" where
  "str_lower U s =
     concat (map (\<lambda>i. if s ! i < 128 then [ascii_lower (s ! i)] else u_lower U s i)
                 [0..<length s])"

fun startswith :: "pystr \<Rightarrow> pystr \<Rightarrow> bool" where
  "startswith s [] = True"
| "startswith [] (p # ps) = False"
| "startswith (c # cs) (p # ps) = (c = p \<and> startswith cs ps)"

text \<open>\<open>sub in s\<close>\<close>

fun py_in :: "pystr \<Rightarrow> pystr \<Rightarrow> bool" where
  "py_in sub [] = (sub = [])"
| "py_in sub (c # cs) = (startswith (c # cs) sub \<or> py_in sub cs)"

section \<open>Character classes\<close>

text \<open>\<open>str.isspace\<close> and the class \<open>\s\<close> of \<open>re\<close> on \<open>str\<close> patterns.\<close>

definition is_space :: "int \<Rightarrow> bool" where
  "is_space c =
     ((9 \<le> c \<and> c \<le> 13) \<or> (28 \<le> c \<and> c \<le> 32) \<or> c = 133 \<or> c = 160 \<or> c = 5760
      \<or> (8192 \<le> c \<and> c \<le> 8202) \<or> c = 8232 \<or> c = 8233 \<or> c = 8239 \<or> c = 8287
      \<or> c = 12288)"

definition is_digit :: "platform \<Rightarrow> int \<Rightarrow> bool" where
  "is_digit U c = (if c < 128 then 48 \<le> c \<and> c \<le> 57 else u_digit U c \<noteq> None)"

definition digit_value :: "platform \<Rightarrow> int \<Rightarrow> int" where
  "digit_value U c =
     (if c < 128 then c - 48 else (case u_digit U c of None \<Rightarrow> 0 | Some v \<Rightarrow> v))"

definition ascii_digit :: "int \<Rightarrow> bool" where
  "ascii_digit c = (48 \<le> c \<and> c \<le> 57)"

definition ascii_alpha :: "int \<Rightarrow> bool" where
  "ascii_alpha c = ((65 \<le> c \<and> c \<le> 90) \<or> (97 \<le> c \<and> c \<le> 122))"

definition is_word :: "platform \<Rightarrow> int \<Rightarrow> bool" where
  "is_word U c =
     (if c < 128 then ascii_digit c \<or> ascii_alpha c \<or> c = 95
      else u_alnum U c \<or> u_digit U c \<noteq> None)"

text \<open>
  Under \<open>re.IGNORECASE\<close> a literal ASCII letter \<open>p\<close> of a pattern matches the
  characters that fold to the same lower-case letter, and \<open>[A-Za-z]\<close> (or \<open>[A-Z]\<close>)
  matches the characters that fold to an ASCII letter. Digits and punctuation have no
  case and match themselves only.
\<close>

definition fold_case :: "platform \<Rightarrow> int \<Rightarrow> int" where
  "fold_case U c = (if c < 128 then ascii_lower c else u_fold U c)"

definition ci :: "platform \<Rightarrow> char \<Rightarrow> int \<Rightarrow> bool" where
  "ci U p c =
     (if ascii_alpha (of_char p) then fold_case U c = ascii_lower (of_char p)
      else c = of_char p)"

definition ci_alpha :: "platform \<Rightarrow> int \<Rightarrow> bool" where
  "ci_alpha U c = (97 \<le> fold_case U c \<and> fold_case U c \<le> 122)"

definition is_char :: "char \<Rightarrow> int \<Rightarrow> bool" where
  "is_char p c = (c = of_char p)"

section \<open>Regular expressions\<close>

text \<open>
  The fragment of Python's \<open>re\<close> that the patterns of the program use, with the
  backtracking order of the library: a match of a pattern at a position is the first
  element of the list of its possible matches, alternatives from left to right and
  repetitions greedy. Every repetition of the program is a repetition of a character
  class. A state of the matcher is the character before the position (for \<open>\b\<close>), the
  rest of the text and the groups captured so far.
\<close>

datatype rx =
    Eps
  | Cls "int \<Rightarrow> bool"
  | Seq rx rx
  | Alt rx rx
  | Rep "int \<Rightarrow> bool" nat "nat option"
  | Grp nat rx
  | WordB "int \<Rightarrow> bool"
  | Dollar

type_synonym caps = "(nat \<times> pystr) list"
type_synonym mstate = "int option \<times> pystr \<times> caps"

definition consume :: "nat \<Rightarrow> mstate \<Rightarrow> mstate" where
  "consume k st =
     (case st of (p, s, c) \<Rightarrow> (if k = 0 then p else Some (s ! (k - 1)), drop k s, c))"

definition rep_results :: "(int \<Rightarrow> bool) \<Rightarrow> nat \<Rightarrow> nat option \<Rightarrow> mstate \<Rightarrow> mstate list" where
  "rep_results P lo hi st =
     (case st of (p, s, c) \<Rightarrow>
        (let run = length (takeWhile P s);
             n = (case hi of None \<Rightarrow> run | Some h \<Rightarrow> min h run)
         in map (\<lambda>k. consume k st) (rev [lo..<Suc n])))"

definition at_boundary :: "(int \<Rightarrow> bool) \<Rightarrow> int option \<Rightarrow> pystr \<Rightarrow> bool" where
  "at_boundary W p s =
     ((case p of None \<Rightarrow> False | Some a \<Rightarrow> W a) \<noteq> (case s of [] \<Rightarrow> False | b # _ \<Rightarrow> W b))"

fun rx_match :: "rx \<Rightarrow> mstate \<Rightarrow> mstate list" where
  "rx_match Eps st = [st]"
| "rx_match (Cls P) (p, s, c) =
     (case s of [] \<Rightarrow> [] | x # xs \<Rightarrow> if P x then [(Some x, xs, c)] else [])"
| "rx_match (Seq a b) st = concat (map (rx_match b) (rx_match a st))"
| "rx_match (Alt a b) st = rx_match a st @ rx_match b st"
| "rx_match (Rep P lo hi) st = rep_results P lo hi st"
| "rx_match (Grp n r) (p, s, c) =
     map (\<lambda>(p', s', c'). (p', s', (n, take (length s - length s') s) # c'))
         (rx_match r (p, s, c))"
| "rx_match (WordB W) (p, s, c) = (if at_boundary W p s then [(p, s, c)] else [])"
| "rx_match Dollar (p, s, c) = (if s = [] \<or> s = [10] then [(p, s, c)] else [])"

text \<open>Pattern syntax: a sequence, an alternation, \<open>r?\<close>, a literal (matched ignoring case).\<close>

fun seqs :: "rx list \<Rightarrow> rx" where
  "seqs [] = Eps"
| "seqs [r] = r"
| "seqs (r # rs) = Seq r (seqs rs)"

fun alts :: "rx list \<Rightarrow> rx" where
  "alts [] = Cls (\<lambda>c. False)"
| "alts [r] = r"
| "alts (r # rs) = Alt r (alts rs)"

definition opt :: "rx \<Rightarrow> rx" where
  "opt r = Alt r Eps"

definition lit :: "platform \<Rightarrow> string \<Rightarrow> rx" where
  "lit U s = seqs (map (\<lambda>p. Cls (ci U p)) s)"

definition lit_exact :: "string \<Rightarrow> rx" where
  "lit_exact s = seqs (map (\<lambda>p. Cls (is_char p)) s)"

text \<open>
  A match object: where it starts, the text it matched (\<open>group(0)\<close>) and its groups.
  \<open>group n\<close> is \<open>None\<close> for a group that did not take part in the match.
\<close>

record rmatch =
  m_start :: nat
  m_text :: pystr
  m_caps :: caps

definition group :: "rmatch \<Rightarrow> nat \<Rightarrow> pystr option" where
  "group m n = map_of (m_caps m) n"

text \<open>
  Scanning a text from left to right (\<open>re.finditer\<close>, \<open>re.sub\<close>): at each position
  the first possible match is taken and the scan goes on behind it; where nothing
  matches, the character is passed over. After an empty match the next match at the
  same position has to be non-empty (the rule of Python 3.7 and later); \<open>ne\<close> says so.
  The result lists the characters passed over and the matches, in order.
\<close>

function scan :: "rx \<Rightarrow> bool \<Rightarrow> nat \<Rightarrow> int option \<Rightarrow> pystr \<Rightarrow> (int + rmatch) list" where
  "scan r ne i p s =
     (case filter (\<lambda>(p', s', c'). \<not> ne \<or> length s' < length s) (rx_match r (p, s, [])) of
        [] \<Rightarrow> (case s of [] \<Rightarrow> [] | x # xs \<Rightarrow> Inl x # scan r False (Suc i) (Some x) xs)
      | (p', s', c') # _ \<Rightarrow>
          (let m = \<lparr>m_start = i, m_text = take (length s - length s') s, m_caps = c'\<rparr> in
           if length s' < length s
           then Inr m # scan r False (i + (length s - length s')) p' s'
           else if ne then [] else Inr m # scan r True i p s))"
  by pat_completeness auto
termination
  by (relation "measure (\<lambda>(r, ne, i, p, s). 2 * length s + (if ne then 0 else 1))") auto

declare scan.simps [simp del]

definition finditer :: "rx \<Rightarrow> pystr \<Rightarrow> rmatch list" where
  "finditer r s = concat (map (\<lambda>x. case x of Inl c \<Rightarrow> [] | Inr m \<Rightarrow> [m]) (scan r False 0 None s))"

definition re_sub :: "rx \<Rightarrow> (rmatch \<Rightarrow> pystr) \<Rightarrow> pystr \<Rightarrow> pystr" where
  "re_sub r repl s =
     concat (map (\<lambda>x. case x of Inl c \<Rightarrow> [c] | Inr m \<Rightarrow> repl m) (scan r False 0 None s))"

definition re_search :: "rx \<Rightarrow> pystr \<Rightarrow> rmatch option" where
  "re_search r s = (case finditer r s of [] \<Rightarrow> None | m # _ \<Rightarrow> Some m)"

text \<open>\<open>re.match\<close>: a match at the start of the text; the rest of the text is returned too.\<close>

definition re_match :: "rx \<Rightarrow> pystr \<Rightarrow> (caps \<times> pystr) option" where
  "re_match r s = (case rx_match r (None, s, []) of [] \<Rightarrow> None | (p', s', c') # _ \<Rightarrow> Some (c', s'))"

definition strip :: "pystr \<Rightarrow> pystr" where
  "strip s = rev (dropWhile is_space (rev (dropWhile is_space s)))"

text \<open>\<open>s.replace(old, new)\<close> for a single character \<open>old\<close>.\<close>

definition replace_char :: "int \<Rightarrow> pystr \<Rightarrow> pystr \<Rightarrow> pystr" where
  "replace_char old new s = concat (map (\<lambda>c. if c = old then new else [c]) s)"

section \<open>Text normalization\<close>

definition hspace :: "int \<Rightarrow> bool" where
  "hspace c = (c = 32 \<or> c = 9)"

definition is_newline :: "int \<Rightarrow> bool" where
  "is_newline c = (c = 10)"

definition normalize_text :: "pystr \<Rightarrow> pystr" where
  "normalize_text text =
     (let clean = replace_char 8210 (str ''-'')
                   (replace_char 8212 (str ''-'')
                     (replace_char 8211 (str ''-'')
                       (replace_char 160 (str '' '') text)));
          clean = re_sub (Rep hspace 1 None) (\<lambda>m. str '' '') clean;
          clean = re_sub (seqs [Rep is_space 0 None, Cls is_newline, Rep is_space 0 None])
                         (\<lambda>m. [10]) clean
      in strip clean)"

section \<open>Calendar dates\<close>

text \<open>
  A \<open>datetime.date\<close> is a year, a month and a day; dates are compared
  lexicographically, which is the order of the product type. The constructor raises
  \<open>ValueError\<close> outside the calendar (years 1 to 9999).
\<close>

type_synonym pydate = "int \<times> int \<times> int"

definition is_leap :: "int \<Rightarrow> bool" where
  "is_leap y = (y mod 4 = 0 \<and> (y mod 100 \<noteq> 0 \<or> y mod 400 = 0))"

definition days_in_month :: "int \<Rightarrow> int \<Rightarrow> int" where
  "days_in_month y m =
     (if m = 2 then (if is_leap y then 29 else 28)
      else if m = 4 \<or> m = 6 \<or> m = 9 \<or> m = 11 then 30 else 31)"

definition valid_date :: "pydate \<Rightarrow> bool" where
  "valid_date dt =
     (case dt of (y, m, d) \<Rightarrow>
        1 \<le> y \<and> y \<le> 9999 \<and> 1 \<le> m \<and> m \<le> 12 \<and> 1 \<le> d \<and> d \<le> days_in_month y m)"

definition mk_date :: "int \<Rightarrow> int \<Rightarrow> int \<Rightarrow> pydate option" where
  "mk_date y m d = (if valid_date (y, m, d) then Some (y, m, d) else None)"

definition full_months :: "string list" where
  "full_months = [''January'', ''February'', ''March'', ''April'', ''May'', ''June'', ''July'',
                  ''August'', ''September'', ''October'', ''November'', ''December'']"

definition abbr_months :: "string list" where
  "abbr_months = [''Jan'', ''Feb'', ''Mar'', ''Apr'', ''May'', ''Jun'', ''Jul'', ''Aug'', ''Sep'',
                  ''Oct'', ''Nov'', ''Dec'']"

text \<open>\<open>d.strftime("%d %B %Y")\<close>\<close>

definition pad2 :: "int \<Rightarrow> pystr" where
  "pad2 n = [48 + n div 10 mod 10, 48 + n mod 10]"

definition pad4 :: "int \<Rightarrow> pystr" where
  "pad4 n = [48 + n div 1000 mod 10, 48 + n div 100 mod 10, 48 + n div 10 mod 10, 48 + n mod 10]"

text \<open>A year of the calendar (1 to 9999) without leading zeros.\<close>

definition unpadded :: "int \<Rightarrow> pystr" where
  "unpadded n =
     (if n < 10 then [48 + n mod 10]
      else if n < 100 then [48 + n div 10 mod 10, 48 + n mod 10]
      else if n < 1000 then [48 + n div 100 mod 10, 48 + n div 10 mod 10, 48 + n mod 10]
      else pad4 n)"

definition year_str :: "platform \<Rightarrow> int \<Rightarrow> pystr" where
  "year_str U y = (if year_padded U then pad4 y else unpadded y)"

definition strftime :: "platform \<Rightarrow> pydate \<Rightarrow> pystr" where
  "strftime U dt =
     (case dt of (y, m, d) \<Rightarrow>
        pad2 d @ str '' '' @ (if 1 \<le> m \<and> m \<le> 12 then str (full_months ! nat (m - 1)) else [])
        @ str '' '' @ year_str U y)"

section \<open>Parsing one date: \<open>datetime.strptime\<close>\<close>

text \<open>
  \<open>strptime\<close> turns a format into a regular expression (a run of white space in the
  format matches one or more white-space characters, a directive matches the pattern
  below, month names longest first), matches it ignoring case at the start of the
  string, and raises \<open>ValueError\<close> when nothing matches, when a part of the string is
  left over, when a month name is not found in the table, or when the fields are not a
  date of the calendar. \<open>None\<close> stands for \<open>ValueError\<close>.
\<close>

datatype directive = D_d | D_m | D_Y | D_B | D_b | D_space | D_lit char

definition in_range :: "char \<Rightarrow> char \<Rightarrow> int \<Rightarrow> bool" where
  "in_range a b c = (of_char a \<le> c \<and> c \<le> of_char b)"

definition names_rx :: "platform \<Rightarrow> string list \<Rightarrow> rx" where
  "names_rx U names = alts (map (lit U) (rev (sort_key length (rev names))))"

fun directive_rx :: "platform \<Rightarrow> directive \<Rightarrow> rx" where
  "directive_rx U D_d =
     Grp 1 (alts [Seq (Cls (is_char CHR ''3'')) (Cls (in_range CHR ''0'' CHR ''1'')),
                  Seq (Cls (in_range CHR ''1'' CHR ''2'')) (Cls (is_digit U)),
                  Seq (Cls (is_char CHR ''0'')) (Cls (in_range CHR ''1'' CHR ''9'')),
                  Cls (in_range CHR ''1'' CHR ''9''),
                  Seq (Cls (is_char CHR '' '')) (Cls (in_range CHR ''1'' CHR ''9''))])"
| "directive_rx U D_m =
     Grp 2 (alts [Seq (Cls (is_char CHR ''1'')) (Cls (in_range CHR ''0'' CHR ''2'')),
                  Seq (Cls (is_char CHR ''0'')) (Cls (in_range CHR ''1'' CHR ''9'')),
                  Cls (in_range CHR ''1'' CHR ''9'')])"
| "directive_rx U D_Y =
     Grp 3 (seqs [Cls (is_digit U), Cls (is_digit U), Cls (is_digit U), Cls (is_digit U)])"
| "directive_rx U D_B = Grp 4 (names_rx U full_months)"
| "directive_rx U D_b = Grp 5 (names_rx U abbr_months)"
| "directive_rx U D_space = Rep is_space 1 None"
| "directive_rx U (D_lit c) = Cls (is_char c)"

text \<open>\<open>int(s)\<close> on the digits that a directive captured.\<close>

definition py_int :: "platform \<Rightarrow> pystr \<Rightarrow> int option" where
  "py_int U s =
     (let t = strip s in
      if t \<noteq> [] \<and> list_all (is_digit U) t
      then Some (foldl (\<lambda>acc c. 10 * acc + digit_value U c) 0 t) else None)"

fun index_of :: "'a \<Rightarrow> 'a list \<Rightarrow> nat option" where
  "index_of x [] = None"
| "index_of x (y # ys) = (if x = y then Some 0 else map_option Suc (index_of x ys))"

definition month_index :: "platform \<Rightarrow> string list \<Rightarrow> pystr \<Rightarrow> int option" where
  "month_index U names s =
     map_option (\<lambda>i. int i + 1)
       (index_of (str_lower U s) (map (\<lambda>n. map ascii_lower (str n)) names))"

definition field_year :: "platform \<Rightarrow> caps \<Rightarrow> int option" where
  "field_year U c = (case map_of c 3 of None \<Rightarrow> Some 1900 | Some t \<Rightarrow> py_int U t)"

definition field_month :: "platform \<Rightarrow> caps \<Rightarrow> int option" where
  "field_month U c =
     (case map_of c 2 of Some t \<Rightarrow> py_int U t
      | None \<Rightarrow> (case map_of c 4 of Some t \<Rightarrow> month_index U full_months t
         | None \<Rightarrow> (case map_of c 5 of Some t \<Rightarrow> month_index U abbr_months t
            | None \<Rightarrow> Some 1)))"

definition field_day :: "platform \<Rightarrow> caps \<Rightarrow> int option" where
  "field_day U c = (case map_of c 1 of None \<Rightarrow> Some 1 | Some t \<Rightarrow> py_int U t)"

definition strptime :: "platform \<Rightarrow> directive list \<Rightarrow> pystr \<Rightarrow> pydate option" where
  "strptime U fmt s =
     (case re_match (seqs (map (directive_rx U) fmt)) s of
        None \<Rightarrow> None
      | Some (c, rest) \<Rightarrow>
          if rest \<noteq> [] then None
          else (case (field_year U c, field_month U c, field_day U c) of
                  (Some y, Some m, Some d) \<Rightarrow> mk_date y m d
                | _ \<Rightarrow> None))"

definition fmts :: "directive list list" where
  "fmts =
     [[D_d, D_space, D_B, D_space, D_Y], [D_B, D_space, D_d, D_space, D_Y],
      [D_d, D_space, D_b, D_space, D_Y], [D_b, D_space, D_d, D_space, D_Y],
      [D_B, D_space, D_Y], [D_b, D_space, D_Y],
      [D_Y, D_lit CHR ''-'', D_m, D_lit CHR ''-'', D_d],
      [D_d, D_lit CHR ''/'', D_m, D_lit CHR ''/'', D_Y],
      [D_m, D_lit CHR ''/'', D_d, D_lit CHR ''/'', D_Y],
      [D_d, D_lit CHR ''-'', D_m, D_lit CHR ''-'', D_Y],
      [D_m, D_lit CHR ''-'', D_d, D_lit CHR ''-'', D_Y],
      [D_d, D_lit CHR ''.'', D_m, D_lit CHR ''.'', D_Y],
      [D_m, D_lit CHR ''.'', D_d, D_lit CHR ''.'', D_Y]]"

fun first_parse :: "platform \<Rightarrow> directive list list \<Rightarrow> pystr \<Rightarrow> pydate option" where
  "first_parse U [] ds = None"
| "first_parse U (f # fs) ds =
     (case strptime U f ds of Some d \<Rightarrow> Some d | None \<Rightarrow> first_parse U fs ds)"

definition parse_one_date :: "platform \<Rightarrow> pystr \<Rightarrow> pydate option" where
  "parse_one_date U ds = first_parse U fmts (strip (replace_char 44 (str '' '') ds))"

definition expand_range :: "platform \<Rightarrow> pystr \<Rightarrow> pystr \<Rightarrow> pystr \<Rightarrow> pystr \<Rightarrow> pydate list" where
  "expand_range U mo d1 d2 year =
     (let left = mo @ str '' '' @ d1 @ str '' '' @ year;
          right = mo @ str '' '' @ d2 @ str '' '' @ year;
          d_left = parse_one_date U left;
          d_right = parse_one_date U right
      in (case d_left of None \<Rightarrow> [] | Some d \<Rightarrow> [d])
         @ (case d_right of None \<Rightarrow> [] | Some d \<Rightarrow> [d]))"

section \<open>The date patterns\<close>

definition MONTHS :: "platform \<Rightarrow> rx" where
  "MONTHS U =
     alts [Seq (lit U ''Jan'') (opt (lit U ''uary'')), Seq (lit U ''Feb'') (opt (lit U ''ruary'')),
           Seq (lit U ''Mar'') (opt (lit U ''ch'')), Seq (lit U ''Apr'') (opt (lit U ''il'')),
           lit U ''May'', Seq (lit U ''Jun'') (opt (lit U ''e'')),
           Seq (lit U ''Jul'') (opt (lit U ''y'')), Seq (lit U ''Aug'') (opt (lit U ''ust'')),
           Seq (lit U ''Sep'') (opt (Seq (lit U ''t'') (opt (lit U ''ember'')))),
           Seq (lit U ''Oct'') (opt (lit U ''ober'')), Seq (lit U ''Nov'') (opt (lit U ''ember'')),
           Seq (lit U ''Dec'') (opt (lit U ''ember''))]"

definition digits :: "platform \<Rightarrow> nat \<Rightarrow> nat \<Rightarrow> rx" where
  "digits U lo hi = Rep (is_digit U) lo (Some hi)"

definition spaces :: "nat \<Rightarrow> rx" where
  "spaces lo = Rep is_space lo None"

definition dash :: "int \<Rightarrow> bool" where
  "dash c = (c = 8211 \<or> c = 45)"

definition date_sep :: "int \<Rightarrow> bool" where
  "date_sep c = (c = of_char CHR ''/'' \<or> c = of_char CHR ''.'' \<or> c = of_char CHR ''-'')"

definition rng :: "platform \<Rightarrow> rx" where
  "rng U =
     seqs [WordB (is_word U), Grp 2 (MONTHS U), spaces 1, Grp 3 (digits U 1 2), spaces 0,
           Cls dash, spaces 0, Grp 4 (digits U 1 2), Cls (is_char CHR '',''), spaces 0,
           Grp 5 (digits U 4 4), WordB (is_word U)]"

definition full1 :: "platform \<Rightarrow> rx" where
  "full1 U =
     seqs [WordB (is_word U), digits U 1 2, spaces 1, MONTHS U, spaces 1, digits U 4 4,
           WordB (is_word U)]"

definition full2 :: "platform \<Rightarrow> rx" where
  "full2 U =
     seqs [WordB (is_word U), MONTHS U, spaces 1, digits U 1 2, Cls (is_char CHR '',''),
           spaces 0, digits U 4 4, WordB (is_word U)]"

definition my :: "platform \<Rightarrow> rx" where
  "my U = seqs [WordB (is_word U), MONTHS U, spaces 1, digits U 4 4, WordB (is_word U)]"

definition iso :: "platform \<Rightarrow> rx" where
  "iso U =
     seqs [WordB (is_word U), digits U 4 4, Cls (is_char CHR ''-''), digits U 2 2,
           Cls (is_char CHR ''-''), digits U 2 2, WordB (is_word U)]"

definition num :: "platform \<Rightarrow> rx" where
  "num U =
     seqs [WordB (is_word U), digits U 1 2, Cls date_sep, digits U 1 2, Cls date_sep,
           digits U 2 4, WordB (is_word U)]"

definition pattern :: "platform \<Rightarrow> rx" where
  "pattern U =
     alts [Grp 1 (rng U), Grp 6 (full1 U), Grp 7 (full2 U), Grp 8 (my U), Grp 9 (iso U),
           Grp 10 (num U)]"

definition ordinal :: "platform \<Rightarrow> rx" where
  "ordinal U =
     Seq (Grp 1 (Rep (is_digit U) 1 None))
         (Grp 2 (alts [lit U ''st'', lit U ''nd'', lit U ''rd'', lit U ''th'']))"

definition truthy :: "pystr option \<Rightarrow> bool" where
  "truthy g = (case g of None \<Rightarrow> False | Some t \<Rightarrow> t \<noteq> [])"

definition group_text :: "rmatch \<Rightarrow> nat \<Rightarrow> pystr" where
  "group_text m n = (case group m n of None \<Rightarrow> [] | Some t \<Rightarrow> t)"

text \<open>The body of the loop over the matches: the dates that one match contributes.\<close>

definition dates_of_match :: "platform \<Rightarrow> rmatch \<Rightarrow> pydate list" where
  "dates_of_match U m =
     (if truthy (group m 2) \<and> truthy (group m 3) \<and> truthy (group m 4) \<and> truthy (group m 5)
      then expand_range U (group_text m 2) (group_text m 3) (group_text m 4) (group_text m 5)
      else (let raw = re_sub (ordinal U) (\<lambda>om. group_text om 1) (m_text m);
                raw = replace_char 44 (str '' '') raw
            in (case parse_one_date U raw of None \<Rightarrow> [] | Some dt \<Rightarrow> [dt])))"

definition found_dates :: "platform \<Rightarrow> pystr \<Rightarrow> pydate list" where
  "found_dates U clean = concat (map (dates_of_match U) (finditer (pattern U) clean))"

text \<open>\<open>sorted(set(found_dates))\<close>\<close>

definition unique_sorted :: "platform \<Rightarrow> pystr \<Rightarrow> pydate list" where
  "unique_sorted U clean = sort (remdups (found_dates U clean))"

section \<open>The wall clock\<close>

text \<open>
  \<open>datetime.now().date()\<close> reads the clock of the machine. The clock is the sequence
  of the dates it shows at its successive readings; the state that the functions pass
  along is the number of readings made so far.
\<close>

type_synonym clock = "nat \<Rightarrow> pydate"

definition datetime_now :: "clock \<Rightarrow> nat \<Rightarrow> pydate \<times> nat" where
  "datetime_now clk k = (clk k, Suc k)"

section \<open>Results of the extractors\<close>

record bucket =
  count :: nat
  list :: "pystr list"

record dates_info =
  all_unique_sorted :: "pystr list"
  past :: bucket
  upcoming :: bucket
  total_unique :: nat

record event =
  date :: pystr
  event_context :: pystr
  status :: pystr

record sections_info =
  s_count :: nat
  s_list :: "pystr list"

text \<open>
  The \<open>metadata\<close> dictionary that \<open>generate_structured_summary\<close> builds. The
  classifier reads it with \<open>get\<close> and a default, so the key \<open>dates\<close> may be absent.
\<close>

record metadata =
  dates :: "dates_info option"
  sections :: "sections_info option"
  timeline :: "event list option"

section \<open>Extracting and classifying the dates\<close>

definition extract_and_classify_dates ::
  "platform \<Rightarrow> clock \<Rightarrow> pystr \<Rightarrow> nat \<Rightarrow> dates_info \<times> nat" where
  "extract_and_classify_dates U clk text k =
     (let clean = normalize_text text;
          us = unique_sorted U clean;
          (today, k') = datetime_now clk k;
          past_dates = filter (\<lambda>d. d < today) us;
          upcoming_dates = filter (\<lambda>d. d \<ge> today) us
      in (\<lparr>all_unique_sorted = map (strftime U) us,
           past = \<lparr>count = length past_dates, list = map (strftime U) past_dates\<rparr>,
           upcoming = \<lparr>count = length upcoming_dates, list = map (strftime U) upcoming_dates\<rparr>,
           total_unique = length us\<rparr>, k'))"

section \<open>Sections invoked\<close>

definition ACTS_A :: "platform \<Rightarrow> rx" where
  "ACTS_A U =
     alts [lit U ''IPC'', lit U ''CrPC'', lit U ''CPC'',
           seqs [lit U ''NI'', spaces 0, lit U ''Act''],
           seqs [lit U ''IT'', spaces 0, lit U ''Act''],
           seqs [lit U ''Evidence'', spaces 0, lit U ''Act''],
           lit U ''PMLA'', lit U ''NDPS'',
           seqs [lit U ''Arms'', spaces 0, lit U ''Act''],
           seqs [lit U ''PC'', spaces 0, lit U ''Act''],
           lit U ''POCSO'',
           seqs [lit U ''Companies'', spaces 0, lit U ''Act''],
           seqs [lit U ''Motor'', spaces 0, lit U ''Vehicles'', spaces 0, lit U ''Act''],
           seqs [lit U ''Contract'', spaces 0, lit U ''Act'']]"

definition punct :: "string \<Rightarrow> int \<Rightarrow> bool" where
  "punct ps c = (c \<in> set (str ps))"

text \<open>Group 1 is \<open>num\<close>, group 2 is \<open>act\<close>.\<close>

definition patt_a :: "platform \<Rightarrow> rx" where
  "patt_a U =
     seqs [Alt (Seq (Alt (lit U ''u/s'') (lit U ''u/s'')) (spaces 0))
               (seqs [opt (Seq (lit U ''under'') (spaces 1)),
                      Alt (lit U ''section'') (Seq (lit U ''sec'') (opt (Cls (is_char CHR ''.'')))),
                      spaces 0]),
           Grp 1 (Rep (\<lambda>c. ascii_digit c \<or> ci_alpha U c \<or> punct ''()-/'' c) 1 None),
           Seq (spaces 0) (opt (seqs [lit U ''of'', spaces 1, lit U ''the'', spaces 1])),
           spaces 0,
           opt (Grp 2 (ACTS_A U))]"

text \<open>Group 1 is \<open>title\<close>, group 2 is \<open>code_no\<close>.\<close>

definition patt_b :: "platform \<Rightarrow> rx" where
  "patt_b U =
     seqs [Grp 1 (seqs [Cls (ci_alpha U), Rep (\<lambda>c. ci_alpha U c \<or> c = 32) 1 None,
                        Alt (lit U ''Code'') (lit U ''Act'')]),
           spaces 1,
           Grp 2 (Rep (\<lambda>c. ascii_digit c \<or> ci_alpha U c \<or> punct ''()-'' c) 1 None)]"

text \<open>\<open>re.split\<close> with a pattern without groups: the pieces between the matches.\<close>

fun split_items :: "(int + rmatch) list \<Rightarrow> pystr \<Rightarrow> pystr list" where
  "split_items [] cur = [cur]"
| "split_items (Inl c # xs) cur = split_items xs (cur @ [c])"
| "split_items (Inr m # xs) cur = cur # split_items xs []"

definition re_split :: "rx \<Rightarrow> pystr \<Rightarrow> pystr list" where
  "re_split r s = split_items (scan r False 0 None s) []"

definition num_splitter :: rx where
  "num_splitter =
     alts [Cls (punct ''/,''),
           seqs [spaces 0, Cls (is_char CHR ''-''), spaces 0],
           seqs [spaces 1, lit_exact ''and'', spaces 1]]"

text \<open>\<open>re.match(r'^[0-9]+[A-Za-z()\-]*$', p)\<close> and \<open>re.match(r'^[0-9A-Za-z()\-]+$', code_no)\<close>\<close>

definition section_token :: "pystr \<Rightarrow> bool" where
  "section_token p =
     (re_match (seqs [Rep ascii_digit 1 None,
                      Rep (\<lambda>c. ascii_alpha c \<or> punct ''()-'' c) 0 None, Dollar]) p \<noteq> None)"

definition code_token :: "pystr \<Rightarrow> bool" where
  "code_token p =
     (re_match (seqs [Rep (\<lambda>c. ascii_digit c \<or> ascii_alpha c \<or> punct ''()-'' c) 1 None, Dollar]) p
      \<noteq> None)"

text \<open>The labels that one match of family A contributes.\<close>

definition labels_a :: "rmatch \<Rightarrow> pystr list" where
  "labels_a m =
     (let nums = group_text m 1;
          act = strip (group_text m 2);
          parts = re_split num_splitter nums
      in map (\<lambda>p. str ''Section '' @ p @ (if act \<noteq> [] then str '' '' @ act else []))
             (filter (\<lambda>p. p \<noteq> [] \<and> section_token p) (map strip parts)))"

definition labels_b :: "rmatch \<Rightarrow> pystr list" where
  "labels_b m =
     (let title = strip (group_text m 1);
          code_no = strip (group_text m 2)
      in if code_token code_no then [title @ str '' '' @ code_no] else [])"

definition family_a :: "platform \<Rightarrow> pystr \<Rightarrow> pystr list" where
  "family_a U clean = concat (map labels_a (finditer (patt_a U) clean))"

definition family_b :: "platform \<Rightarrow> pystr \<Rightarrow> pystr list" where
  "family_b U clean = concat (map labels_b (finditer (patt_b U) clean))"

text \<open>The deduplication loop, with its two variables \<open>dedup\<close> and \<open>seen\<close>.\<close>

fun dedup_loop :: "platform \<Rightarrow> pystr list \<Rightarrow> pystr list \<Rightarrow> pystr set \<Rightarrow> pystr list" where
  "dedup_loop U [] dedup seen = dedup"
| "dedup_loop U (s # ss) dedup seen =
     (let key = str_lower U s in
      if key \<notin> seen then dedup_loop U ss (dedup @ [s]) (insert key seen)
      else dedup_loop U ss dedup seen)"

definition extract_sections_invoked :: "platform \<Rightarrow> pystr \<Rightarrow> pystr list \<times> nat" where
  "extract_sections_invoked U text =
     (let clean = normalize_text text;
          found = family_a U clean @ family_b U clean;
          dedup = dedup_loop U found [] {}
      in (dedup, length dedup))"

section \<open>Timeline\<close>

definition STATUS_UPCOMING :: pystr where
  "STATUS_UPCOMING = [9203, 32] @ str ''Upcoming''"

definition STATUS_COMPLETED :: pystr where
  "STATUS_COMPLETED = [9989, 32] @ str ''Completed''"

definition lit_codes :: "pystr \<Rightarrow> rx" where
  "lit_codes s = seqs (map (\<lambda>p. Cls (\<lambda>c. c = p)) s)"

text \<open>
  The year of a formatted date: \<open>re.search(r'\b(\d{4})\b', dstr).group(1)\<close>, and
  \<open>None\<close> when the search finds nothing (the exception is caught).
\<close>

definition year_of :: "platform \<Rightarrow> pystr \<Rightarrow> pystr option" where
  "year_of U dstr =
     (case re_search (seqs [WordB (is_word U), Grp 1 (digits U 4 4), WordB (is_word U)]) dstr of
        None \<Rightarrow> None | Some m \<Rightarrow> group m 1)"

text \<open>The position of the first occurrence of the year in the text; \<open>None\<close> is \<open>-1\<close>.\<close>

definition year_index :: "platform \<Rightarrow> pystr \<Rightarrow> pystr option \<Rightarrow> nat option" where
  "year_index U clean year =
     (case year of
        None \<Rightarrow> None
      | Some y \<Rightarrow>
          if y = [] then None
          else map_option m_start
                 (re_search (seqs [WordB (is_word U), lit_codes y, WordB (is_word U)]) clean))"

definition slice :: "pystr \<Rightarrow> nat \<Rightarrow> nat \<Rightarrow> pystr" where
  "slice s a b = take (b - a) (drop a s)"

definition context_of :: "platform \<Rightarrow> pystr \<Rightarrow> pystr \<Rightarrow> pystr" where
  "context_of U clean dstr =
     (let idx = year_index U clean (year_of U dstr);
          start = (case idx of None \<Rightarrow> 0 | Some i \<Rightarrow> i - 120);
          end' = min (length clean) (case idx of None \<Rightarrow> 200 | Some i \<Rightarrow> i + 160)
      in strip (re_sub (spaces 1) (\<lambda>m. str '' '') (slice clean start end')))"

definition status_of :: "platform \<Rightarrow> pydate \<Rightarrow> pystr \<Rightarrow> pystr" where
  "status_of U now dstr =
     (case parse_one_date U dstr of
        None \<Rightarrow> STATUS_COMPLETED
      | Some parsed \<Rightarrow> if parsed \<ge> now then STATUS_UPCOMING else STATUS_COMPLETED)"

definition to_date :: "platform \<Rightarrow> pystr \<Rightarrow> pydate" where
  "to_date U s = (case parse_one_date U s of None \<Rightarrow> (1970, 1, 1) | Some d \<Rightarrow> d)"

definition generate_case_timeline ::
  "platform \<Rightarrow> clock \<Rightarrow> pystr \<Rightarrow> nat \<Rightarrow> event list \<times> nat" where
  "generate_case_timeline U clk text k =
     (let clean = normalize_text text;
          (dates_info, k1) = extract_and_classify_dates U clk clean k;
          all_dates = all_unique_sorted dates_info;
          (now, k2) = datetime_now clk k1;
          events = map (\<lambda>dstr. \<lparr>date = dstr, event_context = context_of U clean dstr,
                                 status = status_of U now dstr\<rparr>) all_dates
      in (sort_key (\<lambda>e. to_date U (date e)) events, k2))"

section \<open>Case status\<close>

definition upcoming_count :: "metadata \<Rightarrow> nat" where
  "upcoming_count md = (case dates md of None \<Rightarrow> 0 | Some d \<Rightarrow> count (upcoming d))"

definition keywords_closed :: "pystr list" where
  "keywords_closed = [str ''dismissed'', str ''acquitted'', str ''convicted'', str ''sentenced'']"

definition detect_case_status :: "platform \<Rightarrow> pystr \<Rightarrow> metadata \<Rightarrow> pystr" where
  "detect_case_status U summary_text md =
     (let text = str_lower U summary_text in
      if (py_in (str ''judgment'') text \<and> py_in (str ''delivered'') text)
         \<or> (py_in (str ''final order'') text \<and> py_in (str ''issued'') text)
      then str ''Closed''
      else if upcoming_count md > 0 then str ''Ongoing''
      else if list_ex (\<lambda>k. py_in k text) keywords_closed then str ''Closed''
      else str ''Ongoing'')"

text \<open>The three tests of the classifier, on the lower-cased narrative.\<close>

definition judgment_language :: "platform \<Rightarrow> pystr \<Rightarrow> bool" where
  "judgment_language U t =
     ((py_in (str ''judgment'') (str_lower U t) \<and> py_in (str ''delivered'') (str_lower U t))
      \<or> (py_in (str ''final order'') (str_lower U t) \<and> py_in (str ''issued'') (str_lower U t)))"

definition outcome_keyword :: "platform \<Rightarrow> pystr \<Rightarrow> bool" where
  "outcome_keyword U t =
     (py_in (str ''dismissed'') (str_lower U t) \<or> py_in (str ''acquitted'') (str_lower U t)
      \<or> py_in (str ''convicted'') (str_lower U t) \<or> py_in (str ''sentenced'') (str_lower U t))"

definition md_upcoming :: "nat \<Rightarrow> metadata" where
  "md_upcoming n =
     \<lparr>dates = Some \<lparr>all_unique_sorted = [], past = \<lparr>count = 0, list = []\<rparr>,
                     upcoming = \<lparr>count = n, list = []\<rparr>, total_unique = n\<rparr>,
      sections = None, timeline = None\<rparr>"


section \<open>The normal form of a text\<close>

text \<open>
  What the two substitutions of \<open>_normalize_text\<close> compute, as recursive functions:
  \<open>re.sub(r'[ \t]+', ' ', s)\<close> replaces every maximal run of spaces and tabs by one
  space, and \<open>re.sub(r'\s*\n\s*', '\n', s)\<close> replaces every maximal run of white space
  that holds a line feed by one line feed. They are proved equal to the substitutions
  of the matcher below (\<open>re_sub_collapse\<close>, \<open>re_sub_trim\<close>).
\<close>

function collapse :: "pystr \<Rightarrow> pystr" where
  "collapse [] = []"
| "collapse (x # xs) = (if hspace x then 32 # collapse (dropWhile hspace xs) else x # collapse xs)"
  by pat_completeness auto
termination
  by (relation "measure length") (auto simp: le_imp_less_Suc length_dropWhile_le)

function trim_newlines :: "pystr \<Rightarrow> pystr" where
  "trim_newlines [] = []"
| "trim_newlines (x # xs) =
     (if list_ex is_newline (takeWhile is_space (x # xs))
      then 10 # trim_newlines (dropWhile is_space xs)
      else x # trim_newlines xs)"
  by pat_completeness auto
termination
  by (relation "measure length") (auto simp: le_imp_less_Suc length_dropWhile_le)

text \<open>
  The texts that the normalization leaves: no non-breaking space, no en, em or figure
  dash, no tab, no two spaces in a row, no white space beside a line feed, no white
  space at either end.
\<close>

definition adjacent_ok :: "int \<Rightarrow> int \<Rightarrow> bool" where
  "adjacent_ok a b =
     (\<not> (hspace a \<and> hspace b) \<and> \<not> (a = 10 \<and> is_space b) \<and> \<not> (is_space a \<and> b = 10))"

definition normalized :: "pystr \<Rightarrow> bool" where
  "normalized s =
     ((\<forall>c\<in>set s. c \<noteq> 160 \<and> c \<noteq> 8211 \<and> c \<noteq> 8212 \<and> c \<noteq> 8210 \<and> c \<noteq> 9)
      \<and> successively adjacent_ok s
      \<and> (s \<noteq> [] \<longrightarrow> \<not> is_space (hd s) \<and> \<not> is_space (last s)))"

definition no_hh :: "int \<Rightarrow> int \<Rightarrow> bool" where
  "no_hh a b = (\<not> (hspace a \<and> hspace b))"

section \<open>Properties of the case status\<close>

text \<open>
  C4. \<open>detect_case_status\<close> applies its rules in a fixed order and the first match
  wins: (1) a narrative that contains, ignoring case, both "judgment" and "delivered",
  or both "final order" and "issued", is Closed whatever the number of upcoming dates;
  (2) otherwise a positive upcoming count gives Ongoing; (3) otherwise one of
  "dismissed", "acquitted", "convicted", "sentenced" gives Closed; (4) otherwise Ongoing.
\<close>

theorem detect_case_status_precedence:
  "(judgment_language U t \<longrightarrow> detect_case_status U t md = str ''Closed'')
   \<and> (\<not> judgment_language U t \<and> upcoming_count md > 0
        \<longrightarrow> detect_case_status U t md = str ''Ongoing'')
   \<and> (\<not> judgment_language U t \<and> \<not> upcoming_count md > 0 \<and> outcome_keyword U t
        \<longrightarrow> detect_case_status U t md = str ''Closed'')
   \<and> (\<not> judgment_language U t \<and> \<not> upcoming_count md > 0 \<and> \<not> outcome_keyword U t
        \<longrightarrow> detect_case_status U t md = str ''Ongoing'')"
  by (simp add: detect_case_status_def judgment_language_def outcome_keyword_def
      keywords_closed_def Let_def)

theorem detect_case_status_precedence_witness:
  "judgment_language ascii_only (str ''The Judgment was delivered on 3 May 2024'')
   \<and> upcoming_count (md_upcoming 2) = 2
   \<and> detect_case_status ascii_only (str ''The Judgment was delivered on 3 May 2024'') (md_upcoming 2) = str ''Closed''
   \<and> \<not> judgment_language ascii_only (str ''Next hearing soon'') \<and> upcoming_count (md_upcoming 2) > 0
   \<and> detect_case_status ascii_only (str ''Next hearing soon'') (md_upcoming 2) = str ''Ongoing''
   \<and> \<not> judgment_language ascii_only (str ''The accused was Acquitted'') \<and> \<not> upcoming_count (md_upcoming 0) > 0
   \<and> outcome_keyword ascii_only (str ''The accused was Acquitted'')
   \<and> detect_case_status ascii_only (str ''The accused was Acquitted'') (md_upcoming 0) = str ''Closed''
   \<and> \<not> outcome_keyword ascii_only (str ''Next hearing soon'')
   \<and> detect_case_status ascii_only (str ''Next hearing soon'') (md_upcoming 0) = str ''Ongoing''"
proof -
  have a: "judgment_language ascii_only (str ''The Judgment was delivered on 3 May 2024'')" by code_simp
  have b: "\<not> judgment_language ascii_only (str ''Next hearing soon'')" by code_simp
  have c: "\<not> judgment_language ascii_only (str ''The accused was Acquitted'')" by code_simp
  have d: "outcome_keyword ascii_only (str ''The accused was Acquitted'')" by code_simp
  have e: "\<not> outcome_keyword ascii_only (str ''Next hearing soon'')" by code_simp
  have u2: "upcoming_count (md_upcoming 2) = 2" by (simp add: upcoming_count_def md_upcoming_def)
  have u0: "upcoming_count (md_upcoming 0) = 0" by (simp add: upcoming_count_def md_upcoming_def)
  show ?thesis
    using a b c d e u2 u0
      detect_case_status_precedence [of ascii_only "str ''The Judgment was delivered on 3 May 2024''" "md_upcoming 2"]
      detect_case_status_precedence [of ascii_only "str ''Next hearing soon''" "md_upcoming 2"]
      detect_case_status_precedence [of ascii_only "str ''The accused was Acquitted''" "md_upcoming 0"]
      detect_case_status_precedence [of ascii_only "str ''Next hearing soon''" "md_upcoming 0"]
    by simp
qed

section \<open>Properties of the date classification\<close>

lemma filter_sorted_split:
  fixes t :: "'a::linorder"
  shows "sorted xs \<Longrightarrow> filter (\<lambda>d. d < t) xs @ filter (\<lambda>d. t \<le> d) xs = xs"
proof (induction xs)
  case Nil
  then show ?case by simp
next
  case (Cons x xs)
  show ?case
  proof (cases "x < t")
    case True
    with Cons show ?thesis by simp
  next
    case False
    with Cons.prems have "\<forall>y\<in>set xs. \<not> y < t" by auto
    then have "filter (\<lambda>d. d < t) xs = []" "filter (\<lambda>d. t \<le> d) xs = xs"
      by (auto simp: filter_empty_conv filter_id_conv)
    with False show ?thesis by simp
  qed
qed

lemma unique_sorted_sorted: "sorted (unique_sorted U clean)"
  by (simp add: unique_sorted_def)

lemma unique_sorted_distinct: "distinct (unique_sorted U clean)"
  by (simp add: unique_sorted_def)

text \<open>
  C1. For every text and every date \<open>R\<close> that the clock shows when
  \<open>extract_and_classify_dates\<close> reads it, the past list is the formatting of dates
  strictly before \<open>R\<close> and the upcoming list that of dates at or after \<open>R\<close> (a date
  equal to \<open>R\<close> is upcoming); the two lists, one after the other, are the list of all
  unique sorted dates, with no date in both and none left out, and the two counts add
  up to \<open>total_unique\<close>.
\<close>

theorem classification_partitions:
  "\<exists>ps ups.
     list (past (fst (extract_and_classify_dates U clk T k))) = map (strftime U) ps
     \<and> list (upcoming (fst (extract_and_classify_dates U clk T k))) = map (strftime U) ups
     \<and> (\<forall>d\<in>set ps. d < clk k) \<and> (\<forall>d\<in>set ups. clk k \<le> d)
     \<and> ps @ ups = unique_sorted U (normalize_text T)
     \<and> sorted (ps @ ups) \<and> distinct (ps @ ups) \<and> set ps \<inter> set ups = {}
     \<and> all_unique_sorted (fst (extract_and_classify_dates U clk T k)) = map (strftime U) (ps @ ups)
     \<and> count (past (fst (extract_and_classify_dates U clk T k))) = length ps
     \<and> count (upcoming (fst (extract_and_classify_dates U clk T k))) = length ups
     \<and> total_unique (fst (extract_and_classify_dates U clk T k)) = length (ps @ ups)
     \<and> count (past (fst (extract_and_classify_dates U clk T k)))
         + count (upcoming (fst (extract_and_classify_dates U clk T k)))
       = total_unique (fst (extract_and_classify_dates U clk T k))"
proof -
  let ?us = "unique_sorted U (normalize_text T)"
  let ?ps = "filter (\<lambda>d. d < clk k) ?us"
  let ?ups = "filter (\<lambda>d. clk k \<le> d) ?us"
  have split: "?ps @ ?ups = ?us"
    using filter_sorted_split [OF unique_sorted_sorted] .
  have dis: "set ?ps \<inter> set ?ups = {}" by auto
  have srt: "sorted (?ps @ ?ups)" "distinct (?ps @ ?ups)"
    unfolding split by (rule unique_sorted_sorted, rule unique_sorted_distinct)
  have len: "length ?ps + length ?ups = length ?us"
    using arg_cong [OF split, of length] by simp
  show ?thesis
    apply (rule exI [of _ ?ps], rule exI [of _ ?ups])
    using split dis srt len
    by (simp add: extract_and_classify_dates_def datetime_now_def Let_def)
qed

theorem classification_partitions_witness:
  "unique_sorted ascii_only (normalize_text (str ''15 November 2025, 3 May 2024''))
     = [(2024, 5, 3), (2025, 11, 15)]
   \<and> (\<exists>ps ups.
        list (past (fst (extract_and_classify_dates ascii_only (\<lambda>k. (2025, 11, 15))
               (str ''15 November 2025, 3 May 2024'') 0))) = map (strftime ascii_only) ps
        \<and> list (upcoming (fst (extract_and_classify_dates ascii_only (\<lambda>k. (2025, 11, 15))
               (str ''15 November 2025, 3 May 2024'') 0))) = map (strftime ascii_only) ups
        \<and> (\<forall>d\<in>set ps. d < (2025, 11, 15)) \<and> (\<forall>d\<in>set ups. (2025, 11, 15) \<le> d)
        \<and> ps @ ups = [(2024, 5, 3), (2025, 11, 15)])"
proof -
  have ev: "unique_sorted ascii_only (normalize_text (str ''15 November 2025, 3 May 2024''))
            = [(2024, 5, 3), (2025, 11, 15)]"
    by code_simp
  from classification_partitions [of ascii_only "\<lambda>k. (2025, 11, 15)"
        "str ''15 November 2025, 3 May 2024''" 0]
  obtain ps ups where
    "list (past (fst (extract_and_classify_dates ascii_only (\<lambda>k. (2025, 11, 15))
               (str ''15 November 2025, 3 May 2024'') 0))) = map (strftime ascii_only) ps"
    "list (upcoming (fst (extract_and_classify_dates ascii_only (\<lambda>k. (2025, 11, 15))
               (str ''15 November 2025, 3 May 2024'') 0))) = map (strftime ascii_only) ups"
    "\<forall>d\<in>set ps. d < (2025, 11, 15)" "\<forall>d\<in>set ups. (2025, 11, 15) \<le> d"
    "ps @ ups = unique_sorted ascii_only (normalize_text (str ''15 November 2025, 3 May 2024''))"
    by blast
  with ev show ?thesis by metis
qed

section \<open>Properties of the citations\<close>

lemma dedup_loop_extends:
  "\<exists>ys. dedup_loop U xs acc seen = acc @ ys \<and> subseq ys xs"
proof (induction xs arbitrary: acc seen)
  case Nil
  then show ?case by simp
next
  case (Cons s ss)
  show ?case
  proof (cases "str_lower U s \<in> seen")
    case True
    obtain ys where "dedup_loop U ss acc seen = acc @ ys" "subseq ys ss"
      using Cons.IH by blast
    then show ?thesis using True by (intro exI [of _ ys]) (simp add: list_emb_Cons)
  next
    case False
    obtain ys where "dedup_loop U ss (acc @ [s]) (insert (str_lower U s) seen) = (acc @ [s]) @ ys"
      "subseq ys ss"
      using Cons.IH by blast
    then show ?thesis using False by (intro exI [of _ "s # ys"]) (simp add: Let_def)
  qed
qed

lemma dedup_loop_keys:
  "seen = str_lower U ` set acc \<Longrightarrow>
   str_lower U ` set (dedup_loop U xs acc seen) = seen \<union> str_lower U ` set xs"
proof (induction xs arbitrary: acc seen)
  case Nil
  then show ?case by simp
next
  case (Cons s ss)
  show ?case
  proof (cases "str_lower U s \<in> seen")
    case True
    then show ?thesis using Cons.IH [OF Cons.prems] by auto
  next
    case False
    have "insert (str_lower U s) seen = str_lower U ` set (acc @ [s])"
      using Cons.prems by simp
    from Cons.IH [OF this] show ?thesis using False by (simp add: Let_def)
  qed
qed

lemma dedup_loop_distinct:
  "seen = str_lower U ` set acc \<Longrightarrow> distinct (map (str_lower U) acc) \<Longrightarrow>
   distinct (map (str_lower U) (dedup_loop U xs acc seen))"
proof (induction xs arbitrary: acc seen)
  case Nil
  then show ?case by simp
next
  case (Cons s ss)
  show ?case
  proof (cases "str_lower U s \<in> seen")
    case True
    then show ?thesis using Cons.IH [OF Cons.prems] by simp
  next
    case False
    have p1: "insert (str_lower U s) seen = str_lower U ` set (acc @ [s])"
      using Cons.prems by simp
    have p2: "distinct (map (str_lower U) (acc @ [s]))"
      using Cons.prems False by simp
    from Cons.IH [OF p1 p2] show ?thesis using False by (simp add: Let_def)
  qed
qed

lemma dedup_loop_first:
  "x \<in> set (dedup_loop U xs acc seen) \<Longrightarrow>
   x \<in> set acc \<or> (str_lower U x \<notin> seen \<and> find (\<lambda>y. str_lower U y = str_lower U x) xs = Some x)"
proof (induction xs arbitrary: acc seen)
  case Nil
  then show ?case by simp
next
  case (Cons s ss)
  show ?case
  proof (cases "str_lower U s \<in> seen")
    case True
    with Cons.prems have "x \<in> set (dedup_loop U ss acc seen)" by simp
    from Cons.IH [OF this] show ?thesis using True by auto
  next
    case False
    with Cons.prems have "x \<in> set (dedup_loop U ss (acc @ [s]) (insert (str_lower U s) seen))"
      by (simp add: Let_def)
    from Cons.IH [OF this] show ?thesis using False by auto
  qed
qed

text \<open>
  C6. The deduplication of \<open>extract_sections_invoked\<close> is case-insensitive on the whole
  label: the returned count is the length of the returned list; no two labels of the list
  are equal up to case; the list is a subsequence of the labels found (first-seen order);
  each label of the list is the first found label with its lower-casing, so the first
  casing is the one kept; and every found label has its lower-casing in the list.
\<close>

theorem citations_dedup_case_insensitive:
  "snd (extract_sections_invoked U T) = length (fst (extract_sections_invoked U T))
   \<and> distinct (map (str_lower U) (fst (extract_sections_invoked U T)))
   \<and> subseq (fst (extract_sections_invoked U T))
             (family_a U (normalize_text T) @ family_b U (normalize_text T))
   \<and> (\<forall>x\<in>set (fst (extract_sections_invoked U T)).
         find (\<lambda>y. str_lower U y = str_lower U x)
              (family_a U (normalize_text T) @ family_b U (normalize_text T)) = Some x)
   \<and> (\<forall>y\<in>set (family_a U (normalize_text T) @ family_b U (normalize_text T)).
         \<exists>x\<in>set (fst (extract_sections_invoked U T)). str_lower U x = str_lower U y)"
proof -
  let ?found = "family_a U (normalize_text T) @ family_b U (normalize_text T)"
  have out: "fst (extract_sections_invoked U T) = dedup_loop U ?found [] {}"
    and n: "snd (extract_sections_invoked U T) = length (dedup_loop U ?found [] {})"
    by (simp_all add: extract_sections_invoked_def Let_def)
  have a: "subseq (dedup_loop U ?found [] {}) ?found"
    using dedup_loop_extends [of U ?found "[]" "{}"] by auto
  have b: "distinct (map (str_lower U) (dedup_loop U ?found [] {}))"
    by (rule dedup_loop_distinct) simp_all
  have c: "\<forall>x\<in>set (dedup_loop U ?found [] {}).
             find (\<lambda>y. str_lower U y = str_lower U x) ?found = Some x"
    using dedup_loop_first [of _ U ?found "[]" "{}"] by auto
  have "str_lower U ` set (dedup_loop U ?found [] {}) = {} \<union> str_lower U ` set ?found"
    by (rule dedup_loop_keys) simp
  then have d: "\<forall>y\<in>set ?found. \<exists>x\<in>set (dedup_loop U ?found [] {}). str_lower U x = str_lower U y"
    by (metis (no_types, lifting) Un_empty_left image_iff)
  show ?thesis
    unfolding out n using a b c d by blast
qed

theorem citations_dedup_case_insensitive_witness:
  "family_a ascii_only (normalize_text (str ''Section 420 IPC, section 420 ipc''))
     @ family_b ascii_only (normalize_text (str ''Section 420 IPC, section 420 ipc''))
     = [str ''Section 420 IPC'', str ''Section 420 ipc'']
   \<and> extract_sections_invoked ascii_only (str ''Section 420 IPC, section 420 ipc'')
     = ([str ''Section 420 IPC''], 1)
   \<and> distinct (map (str_lower ascii_only)
        (fst (extract_sections_invoked ascii_only (str ''Section 420 IPC, section 420 ipc''))))
   \<and> find (\<lambda>y. str_lower ascii_only y = str_lower ascii_only (str ''Section 420 IPC''))
          (family_a ascii_only (normalize_text (str ''Section 420 IPC, section 420 ipc''))
           @ family_b ascii_only (normalize_text (str ''Section 420 IPC, section 420 ipc'')))
       = Some (str ''Section 420 IPC'')"
proof -
  have f: "family_a ascii_only (normalize_text (str ''Section 420 IPC, section 420 ipc''))
     @ family_b ascii_only (normalize_text (str ''Section 420 IPC, section 420 ipc''))
     = [str ''Section 420 IPC'', str ''Section 420 ipc'']"
    by code_simp
  have e: "extract_sections_invoked ascii_only (str ''Section 420 IPC, section 420 ipc'')
     = ([str ''Section 420 IPC''], 1)"
    by code_simp
  have m: "str ''Section 420 IPC''
     \<in> set (fst (extract_sections_invoked ascii_only (str ''Section 420 IPC, section 420 ipc'')))"
    unfolding e by simp
  show ?thesis
    using f e m
      citations_dedup_case_insensitive [of ascii_only "str ''Section 420 IPC, section 420 ipc''"]
    by blast
qed

lemma section_token_digit:
  assumes "section_token p"
  shows "p \<noteq> [] \<and> ascii_digit (hd p)"
proof (rule ccontr)
  assume "\<not> (p \<noteq> [] \<and> ascii_digit (hd p))"
  then have "takeWhile ascii_digit p = []"
    by (cases p) auto
  then have r: "rx_match (seqs [Rep ascii_digit 1 None,
                Rep (\<lambda>c. ascii_alpha c \<or> punct ''()-'' c) 0 None, Dollar]) (None, p, []) = []"
    by (simp add: rep_results_def)
  have "\<not> section_token p"
    unfolding section_token_def re_match_def r by simp
  with assms show False by simp
qed

lemma labels_a_form:
  assumes "l \<in> set (labels_a m)"
  shows "\<exists>p act. l = str ''Section '' @ p @ (if act \<noteq> [] then str '' '' @ act else [])
                 \<and> p \<noteq> [] \<and> ascii_digit (hd p) \<and> section_token p"
proof -
  from assms obtain p where
    "l = str ''Section '' @ p @ (if strip (group_text m 2) \<noteq> [] then str '' '' @ strip (group_text m 2) else [])"
    "section_token p"
    by (auto simp: labels_a_def Let_def)
  then show ?thesis using section_token_digit by blast
qed

text \<open>
  C10. Every label that family A (the keyword-prefixed pattern) contributes is
  \<open>Section\<close>, a token and possibly the name of an act, and the token begins with a digit
  and passes the test \<open>^[0-9]+[A-Za-z()\-]*$\<close>; a non-empty token made of letters only never
  passes the test, hence is dropped.
\<close>

theorem family_a_labels_start_with_digit:
  "(\<forall>l\<in>set (family_a U (normalize_text T)).
      \<exists>p act. l = str ''Section '' @ p @ (if act \<noteq> [] then str '' '' @ act else [])
              \<and> p \<noteq> [] \<and> ascii_digit (hd p) \<and> section_token p)
   \<and> (\<forall>p. p \<noteq> [] \<and> list_all ascii_alpha p \<longrightarrow> \<not> section_token p)"
proof (intro conjI ballI allI impI)
  fix l assume "l \<in> set (family_a U (normalize_text T))"
  then obtain m where "l \<in> set (labels_a m)"
    by (auto simp: family_a_def)
  then show "\<exists>p act. l = str ''Section '' @ p @ (if act \<noteq> [] then str '' '' @ act else [])
              \<and> p \<noteq> [] \<and> ascii_digit (hd p) \<and> section_token p"
    by (rule labels_a_form)
next
  fix p :: pystr assume a: "p \<noteq> [] \<and> list_all ascii_alpha p"
  show "\<not> section_token p"
  proof
    assume "section_token p"
    then have "ascii_digit (hd p)" using section_token_digit by blast
    moreover from a have "ascii_alpha (hd p)" by (cases p) auto
    ultimately show False by (auto simp: ascii_digit_def ascii_alpha_def)
  qed
qed

theorem family_a_labels_start_with_digit_witness:
  "family_a ascii_only (normalize_text (str ''u/s 138/ab IPC'')) = [str ''Section 138 IPC'']
   \<and> (\<exists>p act. str ''Section 138 IPC''
                = str ''Section '' @ p @ (if act \<noteq> [] then str '' '' @ act else [])
              \<and> p \<noteq> [] \<and> ascii_digit (hd p) \<and> section_token p)
   \<and> str ''ab'' \<noteq> [] \<and> list_all ascii_alpha (str ''ab'') \<and> \<not> section_token (str ''ab'')"
proof -
  have f: "family_a ascii_only (normalize_text (str ''u/s 138/ab IPC'')) = [str ''Section 138 IPC'']"
    by code_simp
  have g: "str ''ab'' \<noteq> [] \<and> list_all ascii_alpha (str ''ab'')"
    by code_simp
  have m: "str ''Section 138 IPC'' \<in> set (family_a ascii_only (normalize_text (str ''u/s 138/ab IPC'')))"
    unfolding f by simp
  show ?thesis
    using f g m family_a_labels_start_with_digit [of ascii_only "str ''u/s 138/ab IPC''"]
    by blast
qed

section \<open>Properties of the matcher and of blank input\<close>

lemma normalize_text_empty: "normalize_text [] = []"
  by (simp add: normalize_text_def replace_char_def re_sub_def scan.simps [of _ _ _ _ "[]"]
      rep_results_def consume_def strip_def Let_def)

lemma finditer_pattern_empty: "finditer (pattern U) [] = []"
  by (simp add: finditer_def scan.simps [of _ _ _ _ "[]"] pattern_def rng_def full1_def full2_def
      my_def iso_def num_def at_boundary_def)

lemma finditer_patt_a_empty: "finditer (patt_a U) [] = []"
  by (simp add: finditer_def scan.simps [of _ _ _ _ "[]"] patt_a_def lit_def opt_def spaces_def
      rep_results_def consume_def)

lemma finditer_patt_b_empty: "finditer (patt_b U) [] = []"
  by (simp add: finditer_def scan.simps [of _ _ _ _ "[]"] patt_b_def)

lemma rx_match_suffix:
  "(p', s', c') \<in> set (rx_match r (p, s, c)) \<Longrightarrow> \<exists>k. s' = drop k s"
proof (induction r arbitrary: p s c p' s' c')
  case Eps
  then show ?case by (auto intro: exI [of _ 0])
next
  case (Cls P)
  then show ?case by (auto split: list.splits if_splits intro: exI [of _ 1])
next
  case (Seq a b)
  from Seq.prems obtain p1 s1 c1 where
    1: "(p1, s1, c1) \<in> set (rx_match a (p, s, c))" and 2: "(p', s', c') \<in> set (rx_match b (p1, s1, c1))"
    by auto
  from Seq.IH(1) [OF 1] obtain k1 where "s1 = drop k1 s" by blast
  moreover from Seq.IH(2) [OF 2] obtain k2 where "s' = drop k2 s1" by blast
  ultimately show ?case by (auto intro: exI [of _ "k2 + k1"])
next
  case (Alt a b)
  then show ?case by auto
next
  case (Rep P lo hi)
  then show ?case by (auto simp: rep_results_def consume_def Let_def)
next
  case (Grp n r)
  then show ?case by auto
next
  case (WordB W)
  then show ?case by (auto split: if_splits intro: exI [of _ 0])
next
  case Dollar
  then show ?case by (auto split: if_splits intro: exI [of _ 0])
qed

lemma scan_unfold:
  "scan r ne i p s =
     (case filter (\<lambda>(p', s', c'). \<not> ne \<or> length s' < length s) (rx_match r (p, s, [])) of
        [] \<Rightarrow> (case s of [] \<Rightarrow> [] | x # xs \<Rightarrow> Inl x # scan r False (Suc i) (Some x) xs)
      | (p', s', c') # _ \<Rightarrow>
          if length s' < length s
          then Inr \<lparr>m_start = i, m_text = take (length s - length s') s, m_caps = c'\<rparr>
               # scan r False (i + (length s - length s')) p' s'
          else if ne then []
          else Inr \<lparr>m_start = i, m_text = take (length s - length s') s, m_caps = c'\<rparr>
               # scan r True i p s)"
  by (subst scan.simps) (simp add: Let_def split: list.splits)

lemma scan_Inl: "Inl x \<in> set (scan r ne i p s) \<Longrightarrow> x \<in> set s"
proof (induction r ne i p s rule: scan.induct)
  case (1 r ne i p s)
  define ms where "ms = filter (\<lambda>(p', s', c'). \<not> ne \<or> length s' < length s) (rx_match r (p, s, []))"
  note unf = scan_unfold [of r ne i p s, folded ms_def]
  show ?case
  proof (cases ms)
    case Nil
    show ?thesis
    proof (cases s)
      case Nil
      with \<open>ms = []\<close> "1.prems" unf show ?thesis by simp
    next
      case (Cons y ys)
      have "scan r ne i p s = Inl y # scan r False (Suc i) (Some y) ys"
        using unf \<open>ms = []\<close> Cons by simp
      with "1.prems" have "x = y \<or> Inl x \<in> set (scan r False (Suc i) (Some y) ys)"
        by simp
      with "1.IH"(1) [OF \<open>ms = []\<close> [unfolded ms_def] Cons] Cons show ?thesis by auto
    qed
  next
    case (Cons m ms')
    obtain p' s' c' where m: "m = (p', s', c')" by (cases m) auto
    have "m \<in> set ms" unfolding Cons by simp
    then have "(p', s', c') \<in> set (rx_match r (p, s, []))"
      unfolding m ms_def by simp
    then obtain k where k: "s' = drop k s" using rx_match_suffix by blast
    note C = Cons [unfolded ms_def]
    show ?thesis
    proof (cases "length s' < length s")
      case True
      have "scan r ne i p s = Inr \<lparr>m_start = i, m_text = take (length s - length s') s, m_caps = c'\<rparr>
               # scan r False (i + (length s - length s')) p' s'"
        using unf Cons m True by simp
      with "1.prems" have "Inl x \<in> set (scan r False (i + (length s - length s')) p' s')"
        by simp
      from "1.IH"(2) [OF C m [symmetric] refl refl True this]
      show ?thesis using k by (auto dest: in_set_dropD)
    next
      case False
      show ?thesis
      proof (cases ne)
        case True
        have "scan r ne i p s = []" using unf Cons m False True by simp
        with "1.prems" show ?thesis by simp
      next
        case ne: False
        have "scan r ne i p s = Inr \<lparr>m_start = i, m_text = take (length s - length s') s, m_caps = c'\<rparr>
               # scan r True i p s"
          using unf Cons m False ne by simp
        with "1.prems" have "Inl x \<in> set (scan r True i p s)" by simp
        from "1.IH"(3) [OF C m [symmetric] refl refl False ne this] show ?thesis .
      qed
    qed
  qed
qed

lemma re_sub_const_chars: "set (re_sub r (\<lambda>m. w) s) \<subseteq> set s \<union> set w"
proof
  fix x assume "x \<in> set (re_sub r (\<lambda>m. w) s)"
  then obtain it where it: "it \<in> set (scan r False 0 None s)"
    and x: "x \<in> set (case it of Inl c \<Rightarrow> [c] | Inr m \<Rightarrow> w)"
    by (auto simp: re_sub_def)
  show "x \<in> set s \<union> set w"
  proof (cases it)
    case (Inl c)
    with it x scan_Inl show ?thesis by auto
  next
    case (Inr m)
    with x show ?thesis by simp
  qed
qed

lemma strip_blank:
  assumes "\<forall>c\<in>set s. is_space c"
  shows "strip s = []"
proof -
  have d: "dropWhile is_space s = []" using assms by (induction s) auto
  show ?thesis unfolding strip_def d by simp
qed

lemma replace_char_chars: "set (replace_char old new s) \<subseteq> set s \<union> set new"
  by (auto simp: replace_char_def split: if_splits)

lemma replace_char_absent: "old \<notin> set s \<Longrightarrow> replace_char old new s = s"
  by (induction s) (auto simp: replace_char_def)

lemma is_space_consts: "is_space 32" "is_space 10" "\<not> is_space 8210" "\<not> is_space 8211"
  "\<not> is_space 8212"
  by (simp_all add: is_space_def)

lemma normalize_text_blank:
  assumes "\<forall>c\<in>set T. is_space c"
  shows "normalize_text T = []"
proof -
  let ?a = "replace_char 160 (str '' '') T"
  have a: "\<forall>c\<in>set ?a. is_space c"
    using assms replace_char_chars [of 160 "str '' ''" T] is_space_consts(1)
    by (auto simp: str_def)
  have d: "8211 \<notin> set ?a" "8212 \<notin> set ?a" "8210 \<notin> set ?a"
    using a is_space_consts by blast+
  have a': "replace_char 8210 (str ''-'') (replace_char 8212 (str ''-'')
              (replace_char 8211 (str ''-'') ?a)) = ?a"
    using d by (simp add: replace_char_absent)
  let ?b = "re_sub (Rep hspace 1 None) (\<lambda>m. str '' '') ?a"
  have b: "\<forall>c\<in>set ?b. is_space c"
    using a re_sub_const_chars [of "Rep hspace 1 None" "str '' ''" ?a] is_space_consts(1)
    by (auto simp: str_def)
  let ?c = "re_sub (seqs [Rep is_space 0 None, Cls is_newline, Rep is_space 0 None]) (\<lambda>m. [10]) ?b"
  have c: "\<forall>c\<in>set ?c. is_space c"
    using b re_sub_const_chars [of "seqs [Rep is_space 0 None, Cls is_newline, Rep is_space 0 None]" "[10]" ?b]
      is_space_consts(2)
    by auto
  show ?thesis
    unfolding normalize_text_def Let_def a' by (rule strip_blank [OF c])
qed

lemma unique_sorted_empty: "unique_sorted U [] = []"
  by (simp add: unique_sorted_def found_dates_def finditer_pattern_empty)

lemma str_lower_empty: "str_lower U [] = []"
  by (simp add: str_lower_def)

text \<open>
  C8. On an empty text, and on a text of white space only, no extractor fails:
  \<open>extract_and_classify_dates\<close> returns empty lists and \<open>total_unique = 0\<close>,
  \<open>extract_sections_invoked\<close> returns the empty list and the count 0,
  \<open>generate_case_timeline\<close> returns the empty list, and with an empty narrative and the
  metadata built from these results \<open>detect_case_status\<close> returns Ongoing.
\<close>

theorem extractors_on_blank_input:
  assumes "\<forall>c\<in>set T. is_space c"
  shows "extract_and_classify_dates U clk T k
           = (\<lparr>all_unique_sorted = [], past = \<lparr>count = 0, list = []\<rparr>,
               upcoming = \<lparr>count = 0, list = []\<rparr>, total_unique = 0\<rparr>, Suc k)
         \<and> extract_sections_invoked U T = ([], 0)
         \<and> generate_case_timeline U clk T k = ([], Suc (Suc k))
         \<and> detect_case_status U []
              \<lparr>dates = Some (fst (extract_and_classify_dates U clk T k)),
               sections = Some \<lparr>s_count = snd (extract_sections_invoked U T),
                                s_list = fst (extract_sections_invoked U T)\<rparr>,
               timeline = Some (fst (generate_case_timeline U clk T k))\<rparr> = str ''Ongoing''"
proof -
  have n: "normalize_text T = []" using assms by (rule normalize_text_blank)
  have e: "\<And>j. extract_and_classify_dates U clk T j
           = (\<lparr>all_unique_sorted = [], past = \<lparr>count = 0, list = []\<rparr>,
               upcoming = \<lparr>count = 0, list = []\<rparr>, total_unique = 0\<rparr>, Suc j)"
    by (simp add: extract_and_classify_dates_def n unique_sorted_empty datetime_now_def)
  have e0: "\<And>j. extract_and_classify_dates U clk [] j
           = (\<lparr>all_unique_sorted = [], past = \<lparr>count = 0, list = []\<rparr>,
               upcoming = \<lparr>count = 0, list = []\<rparr>, total_unique = 0\<rparr>, Suc j)"
    by (simp add: extract_and_classify_dates_def normalize_text_empty unique_sorted_empty
        datetime_now_def)
  have s: "extract_sections_invoked U T = ([], 0)"
    by (simp add: extract_sections_invoked_def n family_a_def family_b_def
        finditer_patt_a_empty finditer_patt_b_empty)
  have t: "generate_case_timeline U clk T k = ([], Suc (Suc k))"
    by (simp add: generate_case_timeline_def n e0 datetime_now_def)
  have d: "detect_case_status U []
              \<lparr>dates = Some \<lparr>all_unique_sorted = [], past = \<lparr>count = 0, list = []\<rparr>,
                 upcoming = \<lparr>count = 0, list = []\<rparr>, total_unique = 0\<rparr>,
               sections = Some \<lparr>s_count = 0, s_list = []\<rparr>,
               timeline = Some []\<rparr> = str ''Ongoing''"
    by (simp add: detect_case_status_def str_lower_empty upcoming_count_def keywords_closed_def
        str_def)
  show ?thesis
    using d by (simp add: e s t)
qed

theorem extractors_on_blank_input_witness:
  "extract_and_classify_dates ascii_only (\<lambda>k. (2025, 1, 1)) [] 0
           = (\<lparr>all_unique_sorted = [], past = \<lparr>count = 0, list = []\<rparr>,
               upcoming = \<lparr>count = 0, list = []\<rparr>, total_unique = 0\<rparr>, 1)
   \<and> extract_sections_invoked ascii_only [32, 10, 9] = ([], 0)
   \<and> generate_case_timeline ascii_only (\<lambda>k. (2025, 1, 1)) [32, 10, 9] 0 = ([], 2)"
proof -
  have a: "\<forall>c\<in>set ([]::int list). is_space c" by simp
  have b: "\<forall>c\<in>set [32, 10, 9 :: int]. is_space c" by (simp add: is_space_def)
  show ?thesis
    using extractors_on_blank_input [OF a, of ascii_only "\<lambda>k. (2025, 1, 1)" 0]
      extractors_on_blank_input [OF b, of ascii_only "\<lambda>k. (2025, 1, 1)" 0]
    by (simp add: numeral_2_eq_2)
qed

section \<open>Properties of the clock readings\<close>


lemma all_unique_sorted_clock:
  "all_unique_sorted (fst (extract_and_classify_dates U clk T k))
     = map (strftime U) (unique_sorted U (normalize_text T))"
  by (simp add: extract_and_classify_dates_def datetime_now_def Let_def)

section \<open>Properties of the range expansion\<close>

lemma range_example_dates:
  "unique_sorted U (normalize_text (str ''February 5-12, 2026'')) = [(2026, 2, 5), (2026, 2, 12)]"
  by code_simp

lemma range_example_groups:
  "map (\<lambda>m. (group m 2, group m 3, group m 4, group m 5))
       (finditer (pattern U) (str ''February 5-12, 2026''))
   = [(Some (str ''February''), Some (str ''5''), Some (str ''12''), Some (str ''2026''))]"
  by code_simp

lemma range_example_partial:
  "found_dates U (str ''February 5-30, 2026'') = [(2026, 2, 5)]"
  by code_simp

text \<open>
  C5. A range contributes the two dates at its ends and nothing else: \<open>_expand_range\<close>
  parses "month day year" for the first day and for the second with the parser of single
  dates, and an end that does not parse is left out while the other is kept. A match whose
  groups 2 to 5 are filled is sent to \<open>_expand_range\<close>. On "February 5-12, 2026" the scan
  finds one match with the groups February, 5, 12 and 2026; on "February 5-30, 2026" only
  the 5th remains; and when the clock shows a date not after 5 February 2026, the upcoming
  dates of "February 5-12, 2026" are "05 February 2026" and "12 February 2026".
\<close>

theorem range_expansion:
  "expand_range U mo d1 d2 yr
     = (case parse_one_date U (mo @ str '' '' @ d1 @ str '' '' @ yr) of None \<Rightarrow> [] | Some a \<Rightarrow> [a])
       @ (case parse_one_date U (mo @ str '' '' @ d2 @ str '' '' @ yr) of None \<Rightarrow> [] | Some b \<Rightarrow> [b])
   \<and> (truthy (group m 2) \<and> truthy (group m 3) \<and> truthy (group m 4) \<and> truthy (group m 5)
        \<longrightarrow> dates_of_match U m
            = expand_range U (group_text m 2) (group_text m 3) (group_text m 4) (group_text m 5))
   \<and> map (\<lambda>m. (group m 2, group m 3, group m 4, group m 5))
         (finditer (pattern U) (str ''February 5-12, 2026''))
       = [(Some (str ''February''), Some (str ''5''), Some (str ''12''), Some (str ''2026''))]
   \<and> found_dates U (str ''February 5-30, 2026'') = [(2026, 2, 5)]
   \<and> (clk k \<le> (2026, 2, 5)
        \<longrightarrow> upcoming (fst (extract_and_classify_dates U clk (str ''February 5-12, 2026'') k))
              = \<lparr>count = 2, list = [str ''05 February 2026'', str ''12 February 2026'']\<rparr>
            \<and> past (fst (extract_and_classify_dates U clk (str ''February 5-12, 2026'') k))
              = \<lparr>count = 0, list = []\<rparr>
            \<and> total_unique (fst (extract_and_classify_dates U clk (str ''February 5-12, 2026'') k)) = 2)"
proof -
  have a: "expand_range U mo d1 d2 yr
     = (case parse_one_date U (mo @ str '' '' @ d1 @ str '' '' @ yr) of None \<Rightarrow> [] | Some a \<Rightarrow> [a])
       @ (case parse_one_date U (mo @ str '' '' @ d2 @ str '' '' @ yr) of None \<Rightarrow> [] | Some b \<Rightarrow> [b])"
    by (simp add: expand_range_def Let_def)
  have b: "truthy (group m 2) \<and> truthy (group m 3) \<and> truthy (group m 4) \<and> truthy (group m 5)
        \<longrightarrow> dates_of_match U m
            = expand_range U (group_text m 2) (group_text m 3) (group_text m 4) (group_text m 5)"
    by (simp add: dates_of_match_def)
  have y: "year_str U 2026 = str ''2026''"
    by (simp add: year_str_def unpadded_def pad4_def str_def)
  have s1: "strftime U (2026, 2, 5) = str ''05 February 2026''"
    and s2: "strftime U (2026, 2, 12) = str ''12 February 2026''"
    by (simp_all add: strftime_def y pad2_def full_months_def str_def)
  have c: "upcoming (fst (extract_and_classify_dates U clk (str ''February 5-12, 2026'') k))
              = \<lparr>count = 2, list = [str ''05 February 2026'', str ''12 February 2026'']\<rparr>
            \<and> past (fst (extract_and_classify_dates U clk (str ''February 5-12, 2026'') k))
              = \<lparr>count = 0, list = []\<rparr>
            \<and> total_unique (fst (extract_and_classify_dates U clk (str ''February 5-12, 2026'') k)) = 2"
    if le: "clk k \<le> (2026, 2, 5)"
  proof -
    have l2: "clk k \<le> (2026, 2, 12)"
      using le by (rule order_trans) (simp add: less_eq_prod_def)
    have n1: "\<not> (2026, 2, 5) < clk k" "\<not> (2026, 2, 12) < clk k"
      using le l2 by auto
    show ?thesis
      using le l2 n1
      by (simp add: extract_and_classify_dates_def datetime_now_def Let_def range_example_dates
          s1 s2)
  qed
  show ?thesis
    using a b c range_example_groups range_example_partial by blast
qed

theorem range_expansion_witness:
  "(2025, 1, 1) \<le> ((2026, 2, 5) :: pydate)
   \<and> upcoming (fst (extract_and_classify_dates ascii_only (\<lambda>k. (2025, 1, 1))
         (str ''February 5-12, 2026'') 0))
     = \<lparr>count = 2, list = [str ''05 February 2026'', str ''12 February 2026'']\<rparr>
   \<and> found_dates ascii_only (str ''February 5-30, 2026'') = [(2026, 2, 5)]"
proof -
  have le: "(2025, 1, 1) \<le> ((2026, 2, 5) :: pydate)"
    by (simp add: less_eq_prod_def)
  show ?thesis
    using le range_expansion [of ascii_only _ _ _ _ _ "\<lambda>k. (2025, 1, 1)" 0]
    by simp
qed

section \<open>Properties of the normalization\<close>

lemma consume_Suc: "consume (Suc k) (p, x # xs, c) = consume k (Some x, xs, c)"
  by (cases k) (simp_all add: consume_def)

lemma consume_0: "consume 0 st = st"
  by (cases st) (simp add: consume_def)

lemma rev_upt_0_Suc: "rev [0..<Suc (Suc n)] = map Suc (rev [0..<Suc n]) @ [0]"
proof -
  have a: "[0..<Suc (Suc n)] = 0 # [Suc 0..<Suc (Suc n)]" by (rule upt_conv_Cons) simp
  have b: "[Suc 0..<Suc (Suc n)] = map Suc [0..<Suc n]" by (rule map_Suc_upt [symmetric])
  show ?thesis unfolding a b by (simp only: rev.simps rev_map)
qed

lemma rep0_results_Cons:
  "P x \<Longrightarrow> rep_results P 0 None (p, x # xs, c) = rep_results P 0 None (Some x, xs, c) @ [(p, x # xs, c)]"
  by (simp add: rep_results_def Let_def rev_upt_0_Suc consume_Suc consume_0 comp_def
      del: upt_Suc)

lemma rep0_results_stop:
  "s = [] \<or> \<not> P (hd s) \<Longrightarrow> rep_results P 0 None (p, s, c) = [(p, s, c)]"
  by (cases s) (auto simp: rep_results_def consume_0)

lemma rep0_unfold_Cons:
  "rx_match (Seq (Rep P 0 None) K) (p, x # xs, c)
   = (if P x then rx_match (Seq (Rep P 0 None) K) (Some x, xs, c) @ rx_match K (p, x # xs, c)
      else rx_match K (p, x # xs, c))"
  by (simp add: rep0_results_Cons rep0_results_stop)

lemma rep0_unfold_Nil: "rx_match (Seq (Rep P 0 None) K) (p, [], c) = rx_match K (p, [], c)"
  by (simp add: rep0_results_stop)

lemma rep0_first:
  "rep_results P 0 None (p, s, c) \<noteq> []
   \<and> snd (hd (rep_results P 0 None (p, s, c))) = (dropWhile P s, c)"
proof (induction s arbitrary: p)
  case Nil
  then show ?case by (simp add: rep0_results_stop)
next
  case (Cons x xs)
  show ?case
  proof (cases "P x")
    case True
    with Cons [of "Some x"] show ?thesis by (simp add: rep0_results_Cons)
  next
    case False
    then show ?thesis by (simp add: rep0_results_stop)
  qed
qed

lemma rep1_results_hit:
  assumes "P x"
  shows "\<exists>p' more. rep_results P (Suc 0) None (p, x # xs, c) = (p', dropWhile P xs, c) # more"
proof -
  define n where "n = length (takeWhile P xs)"
  have len: "length (takeWhile P (x # xs)) = Suc n" using assms by (simp add: n_def)
  have u: "[Suc 0..<Suc (Suc n)] = [Suc 0..<Suc n] @ [Suc n]" by simp
  have r: "rev [Suc 0..<Suc (Suc n)] = Suc n # rev [Suc 0..<Suc n]"
    unfolding u by simp
  have d: "drop n xs = dropWhile P xs" by (simp add: dropWhile_eq_drop n_def)
  have "rep_results P (Suc 0) None (p, x # xs, c)
        = map (\<lambda>k. consume k (p, x # xs, c)) (rev [Suc 0..<Suc (Suc n)])"
    unfolding rep_results_def prod.case Let_def len option.case ..
  also have "\<dots> = consume (Suc n) (p, x # xs, c)
                    # map (\<lambda>k. consume k (p, x # xs, c)) (rev [Suc 0..<Suc n])"
    unfolding r by simp
  also have "consume (Suc n) (p, x # xs, c) = (Some ((x # xs) ! n), dropWhile P xs, c)"
    by (simp add: consume_def d)
  finally show ?thesis by blast
qed

lemma rep1_results_miss: "s = [] \<or> \<not> P (hd s) \<Longrightarrow> rep_results P (Suc 0) None (p, s, c) = []"
  by (cases s) (auto simp: rep_results_def)

lemma scan_collapse:
  "concat (map (\<lambda>x. case x of Inl c \<Rightarrow> [c] | Inr m \<Rightarrow> [32])
             (scan (Rep hspace (Suc 0) None) False i p s))
   = collapse s"
proof (induction s arbitrary: i p rule: collapse.induct)
  case 1
  show ?case
    by (subst scan_unfold) (simp add: rep1_results_miss)
next
  case (2 x xs)
  show ?case
  proof (cases "hspace x")
    case True
    obtain p' more where r: "rep_results hspace (Suc 0) None (p, x # xs, [])
        = (p', dropWhile hspace xs, []) # more"
      using rep1_results_hit [of hspace x p xs "[]"] True by blast
    have l: "length (dropWhile hspace xs) < Suc (length xs)"
      by (simp add: le_imp_less_Suc length_dropWhile_le)
    show ?thesis
      apply (subst scan_unfold)
      using True l "2.IH"(1) [OF True] by (simp add: r)
  next
    case False
    show ?thesis
      apply (subst scan_unfold)
      using False "2.IH"(2) [OF False] by (simp add: rep1_results_miss)
  qed
qed

lemma str_space: "str '' '' = [32]"
  by (simp add: str_def)

lemma re_sub_collapse: "re_sub (Rep hspace 1 None) (\<lambda>m. str '' '') s = collapse s"
  unfolding re_sub_def One_nat_def str_space by (rule scan_collapse)

lemma nl_then_spaces_Nil: "rx_match (Seq (Cls is_newline) (Rep is_space 0 None)) (p, [], c) = []"
  by simp

lemma nl_then_spaces_Cons:
  "rx_match (Seq (Cls is_newline) (Rep is_space 0 None)) (p, x # xs, c)
   = (if x = 10 then rep_results is_space 0 None (Some 10, xs, c) else [])"
  by (simp add: is_newline_def)

lemma is_space_10: "is_space 10"
  by (simp add: is_space_def)

lemma newline_run_first:
  "(\<not> list_ex is_newline (takeWhile is_space s)
      \<longrightarrow> rx_match (Seq (Rep is_space 0 None) (Seq (Cls is_newline) (Rep is_space 0 None))) (p, s, c) = [])
   \<and> (list_ex is_newline (takeWhile is_space s)
      \<longrightarrow> (\<exists>p' more. rx_match (Seq (Rep is_space 0 None) (Seq (Cls is_newline) (Rep is_space 0 None)))
                          (p, s, c) = (p', dropWhile is_space s, c) # more))"
proof (induction s arbitrary: p)
  case Nil
  show ?case
    by (simp only: rep0_unfold_Nil nl_then_spaces_Nil) simp
next
  case (Cons x xs)
  let ?R = "Seq (Rep is_space 0 None) (Seq (Cls is_newline) (Rep is_space 0 None))"
  let ?K = "Seq (Cls is_newline) (Rep is_space 0 None)"
  show ?case
  proof (cases "is_space x")
    case sp: True
    have unf: "rx_match ?R (p, x # xs, c) = rx_match ?R (Some x, xs, c) @ rx_match ?K (p, x # xs, c)"
      using sp by (simp only: rep0_unfold_Cons if_True)
    show ?thesis
    proof (cases "list_ex is_newline (takeWhile is_space xs)")
      case True
      with Cons [of "Some x"] obtain p' more where
        "rx_match ?R (Some x, xs, c) = (p', dropWhile is_space xs, c) # more" by blast
      then show ?thesis unfolding unf using sp True by simp
    next
      case False
      with Cons [of "Some x"] have e: "rx_match ?R (Some x, xs, c) = []" by blast
      show ?thesis
      proof (cases "x = 10")
        case True
        obtain st more where r: "rep_results is_space 0 None (Some 10, xs, c) = st # more"
          using rep0_first [of is_space "Some 10" xs c] by (cases "rep_results is_space 0 None (Some 10, xs, c)") auto
        have "snd st = (dropWhile is_space xs, c)"
          using rep0_first [of is_space "Some 10" xs c] r by simp
        then obtain p' where st: "st = (p', dropWhile is_space xs, c)" by (cases st) auto
        have h: "is_newline x" using True by (simp add: is_newline_def)
        show ?thesis
          unfolding unf e nl_then_spaces_Cons using True sp r st h by simp
      next
        case ne: False
        have h: "\<not> is_newline x" using ne by (simp add: is_newline_def)
        show ?thesis
          unfolding unf e nl_then_spaces_Cons using ne sp False h by simp
      qed
    qed
  next
    case nsp: False
    then have "x \<noteq> 10" using is_space_10 by auto
    then show ?thesis
      using nsp by (simp only: rep0_unfold_Cons nl_then_spaces_Cons) simp
  qed
qed

lemma scan_trim:
  "concat (map (\<lambda>x. case x of Inl c \<Rightarrow> [c] | Inr m \<Rightarrow> [10])
             (scan (Seq (Rep is_space 0 None) (Seq (Cls is_newline) (Rep is_space 0 None))) False i p s))
   = trim_newlines s"
proof -
  define R where "R = Seq (Rep is_space 0 None) (Seq (Cls is_newline) (Rep is_space 0 None))"
  have "concat (map (\<lambda>x. case x of Inl c \<Rightarrow> [c] | Inr m \<Rightarrow> [10]) (scan R False i p s))
        = trim_newlines s"
  proof (induction s arbitrary: i p rule: trim_newlines.induct)
    case 1
    have "rx_match R (p, [], []) = []"
      using newline_run_first [of "[]" p "[]"] unfolding R_def by simp
    then show ?case
      by (subst scan_unfold) simp
  next
    case (2 x xs)
    show ?case
    proof (cases "list_ex is_newline (takeWhile is_space (x # xs))")
      case True
      then have sp: "is_space x" by (cases "is_space x") auto
      have d: "dropWhile is_space (x # xs) = dropWhile is_space xs" using sp by simp
      obtain p' more where r: "rx_match R (p, x # xs, []) = (p', dropWhile is_space xs, []) # more"
        using newline_run_first [of "x # xs" p "[]"] True unfolding R_def d by blast
      have l: "length (dropWhile is_space xs) < Suc (length xs)"
        by (simp add: le_imp_less_Suc length_dropWhile_le)
      have t: "trim_newlines (x # xs) = 10 # trim_newlines (dropWhile is_space xs)"
        using True by (subst trim_newlines.simps) (simp only: if_True)
      show ?thesis
        unfolding t
        apply (subst scan_unfold)
        using l "2.IH"(1) [OF True] by (simp add: r)
    next
      case False
      have r: "rx_match R (p, x # xs, []) = []"
        using newline_run_first [of "x # xs" p "[]"] False unfolding R_def by blast
      have t: "trim_newlines (x # xs) = x # trim_newlines xs"
        using False by (subst trim_newlines.simps) (simp only: if_False)
      show ?thesis
        unfolding t
        apply (subst scan_unfold)
        using "2.IH"(2) [OF False] by (simp add: r)
    qed
  qed
  then show ?thesis unfolding R_def .
qed

lemma re_sub_trim:
  "re_sub (seqs [Rep is_space 0 None, Cls is_newline, Rep is_space 0 None]) (\<lambda>m. [10]) s
   = trim_newlines s"
  unfolding re_sub_def seqs.simps by (rule scan_trim)

lemma normalize_text_eq:
  "normalize_text T
   = strip (trim_newlines (collapse (replace_char 8210 (str ''-'') (replace_char 8212 (str ''-'')
       (replace_char 8211 (str ''-'') (replace_char 160 (str '' '') T))))))"
  unfolding normalize_text_def Let_def re_sub_collapse re_sub_trim ..

lemma strip_id:
  assumes "s \<noteq> []" "\<not> is_space (hd s)" "\<not> is_space (last s)"
  shows "strip s = s"
proof -
  have a: "dropWhile is_space s = s"
    using assms(1,2) by (cases s) auto
  have "rev s \<noteq> []" "\<not> is_space (hd (rev s))"
    using assms(1,3) by (simp_all add: hd_rev)
  then have b: "dropWhile is_space (rev s) = rev s"
    by (cases "rev s") auto
  show ?thesis unfolding strip_def a b by simp
qed

lemma collapse_fixed:
  "\<forall>c\<in>set s. c \<noteq> 9 \<Longrightarrow> successively adjacent_ok s \<Longrightarrow> collapse s = s"
proof (induction s rule: collapse.induct)
  case 1
  show ?case by simp
next
  case (2 x xs)
  from "2.prems"(2) have tl: "successively adjacent_ok xs"
    by (auto simp: successively_Cons)
  from "2.prems"(1) have ch: "\<forall>c\<in>set xs. c \<noteq> 9" by simp
  show ?case
  proof (cases "hspace x")
    case True
    then have x: "x = 32" using "2.prems"(1) by (simp add: hspace_def)
    have "xs = [] \<or> \<not> hspace (hd xs)"
      using "2.prems"(2) True by (auto simp: successively_Cons adjacent_ok_def)
    then have d: "dropWhile hspace xs = xs" by (cases xs) auto
    from "2.IH"(1) [OF True] ch tl have "collapse xs = xs"
      unfolding d by simp
    then show ?thesis using True x by (simp add: d)
  next
    case False
    from "2.IH"(2) [OF False ch tl] show ?thesis using False by simp
  qed
qed

lemma newline_run_single:
  "successively adjacent_ok s \<Longrightarrow> list_ex is_newline (takeWhile is_space s)
   \<Longrightarrow> \<exists>r. s = 10 # r \<and> (r = [] \<or> \<not> is_space (hd r))"
proof (induction s)
  case Nil
  then show ?case by simp
next
  case (Cons x xs)
  from Cons.prems(2) have sp: "is_space x" by (cases "is_space x") auto
  show ?case
  proof (cases "x = 10")
    case True
    with Cons.prems(1) show ?thesis
      by (auto simp: successively_Cons adjacent_ok_def)
  next
    case False
    then have "\<not> is_newline x" by (simp add: is_newline_def)
    with Cons.prems(2) sp have nl: "list_ex is_newline (takeWhile is_space xs)"
      by simp
    from Cons.prems(1) have "successively adjacent_ok xs" by (auto simp: successively_Cons)
    from Cons.IH [OF this nl] obtain r where "xs = 10 # r" by blast
    with Cons.prems(1) sp have False
      by (simp add: adjacent_ok_def)
    then show ?thesis ..
  qed
qed

lemma trim_newlines_fixed: "successively adjacent_ok s \<Longrightarrow> trim_newlines s = s"
proof (induction s rule: trim_newlines.induct)
  case 1
  show ?case by simp
next
  case (2 x xs)
  from "2.prems" have tl: "successively adjacent_ok xs" by (auto simp: successively_Cons)
  show ?case
  proof (cases "list_ex is_newline (takeWhile is_space (x # xs))")
    case True
    from newline_run_single [OF "2.prems" True] have x: "x = 10" and r: "xs = [] \<or> \<not> is_space (hd xs)"
      by auto
    from r have d: "dropWhile is_space xs = xs" by (cases xs) auto
    have "trim_newlines (x # xs) = 10 # trim_newlines (dropWhile is_space xs)"
      using True by (subst trim_newlines.simps) (simp only: if_True)
    also have "trim_newlines (dropWhile is_space xs) = xs"
      using "2.IH"(1) [OF True] tl unfolding d by simp
    finally show ?thesis using x by simp
  next
    case False
    have "trim_newlines (x # xs) = x # trim_newlines xs"
      using False by (subst trim_newlines.simps) (simp only: if_False)
    with "2.IH"(2) [OF False tl] show ?thesis by simp
  qed
qed

lemma normalized_fixed:
  assumes "normalized s"
  shows "normalize_text s = s"
proof -
  from assms have ch: "160 \<notin> set s" "8211 \<notin> set s" "8212 \<notin> set s" "8210 \<notin> set s"
    and t: "\<forall>c\<in>set s. c \<noteq> 9" and adj: "successively adjacent_ok s"
    and ends: "s \<noteq> [] \<longrightarrow> \<not> is_space (hd s) \<and> \<not> is_space (last s)"
    by (auto simp: normalized_def)
  have r: "replace_char 8210 (str ''-'') (replace_char 8212 (str ''-'')
       (replace_char 8211 (str ''-'') (replace_char 160 (str '' '') s))) = s"
    using ch by (simp add: replace_char_absent)
  have st: "strip s = s"
  proof (cases "s = []")
    case True
    then show ?thesis by (simp add: strip_def)
  next
    case False
    with ends show ?thesis by (intro strip_id) simp_all
  qed
  show ?thesis
    unfolding normalize_text_eq r collapse_fixed [OF t adj] trim_newlines_fixed [OF adj] st ..
qed

lemma collapse_chars: "c \<in> set (collapse s) \<Longrightarrow> c = 32 \<or> (c \<in> set s \<and> \<not> hspace c)"
proof (induction s rule: collapse.induct)
  case 1
  then show ?case by simp
next
  case (2 x xs)
  show ?case
  proof (cases "hspace x")
    case True
    with "2.prems" have "c = 32 \<or> c \<in> set (collapse (dropWhile hspace xs))" by simp
    with "2.IH"(1) [OF True] show ?thesis by (auto dest: set_dropWhileD)
  next
    case False
    with "2.prems" have "c = x \<or> c \<in> set (collapse xs)" by simp
    with "2.IH"(2) [OF False] False show ?thesis by auto
  qed
qed

lemma collapse_hd: "\<not> hspace x \<Longrightarrow> collapse (x # xs) = x # collapse xs"
  by simp

lemma dropWhile_head: "dropWhile P xs = [] \<or> \<not> P (hd (dropWhile P xs))"
  by (induction xs) auto

lemma collapse_no_hh: "successively no_hh (collapse s)"
proof (induction s rule: collapse.induct)
  case 1
  show ?case by simp
next
  case (2 x xs)
  show ?case
  proof (cases "hspace x")
    case True
    let ?r = "dropWhile hspace xs"
    have "collapse ?r = [] \<or> \<not> hspace (hd (collapse ?r))"
    proof (cases ?r)
      case Nil
      show ?thesis unfolding Nil by simp
    next
      case (Cons y ys)
      with dropWhile_head [of hspace xs] have "\<not> hspace y" by simp
      then show ?thesis unfolding Cons by simp
    qed
    with "2.IH"(1) [OF True] True show ?thesis
      by (auto simp: successively_Cons no_hh_def)
  next
    case False
    with "2.IH"(2) [OF False] show ?thesis
      by (auto simp: successively_Cons no_hh_def)
  qed
qed

lemma trim_newlines_chars: "c \<in> set (trim_newlines s) \<Longrightarrow> c = 10 \<or> c \<in> set s"
proof (induction s rule: trim_newlines.induct)
  case 1
  then show ?case by simp
next
  case (2 x xs)
  show ?case
  proof (cases "list_ex is_newline (takeWhile is_space (x # xs))")
    case True
    have "trim_newlines (x # xs) = 10 # trim_newlines (dropWhile is_space xs)"
      using True by (subst trim_newlines.simps) (simp only: if_True)
    with "2.prems" have "c = 10 \<or> c \<in> set (trim_newlines (dropWhile is_space xs))" by simp
    with "2.IH"(1) [OF True] show ?thesis by (auto dest: set_dropWhileD)
  next
    case False
    have "trim_newlines (x # xs) = x # trim_newlines xs"
      using False by (subst trim_newlines.simps) (simp only: if_False)
    with "2.prems" have "c = x \<or> c \<in> set (trim_newlines xs)" by simp
    with "2.IH"(2) [OF False] show ?thesis by auto
  qed
qed

lemma trim_newlines_hd:
  "trim_newlines (y # ys) \<noteq> []
   \<and> hd (trim_newlines (y # ys))
     = (if list_ex is_newline (takeWhile is_space (y # ys)) then 10 else y)"
proof (cases "list_ex is_newline (takeWhile is_space (y # ys))")
  case True
  have "trim_newlines (y # ys) = 10 # trim_newlines (dropWhile is_space ys)"
    using True by (subst trim_newlines.simps) (simp only: if_True)
  with True show ?thesis by simp
next
  case False
  have "trim_newlines (y # ys) = y # trim_newlines ys"
    using False by (subst trim_newlines.simps) (simp only: if_False)
  with False show ?thesis by simp
qed

lemma is_space_hspace: "hspace a \<Longrightarrow> is_space a"
  by (auto simp: hspace_def is_space_def)

lemma newline_run_Cons:
  "list_ex is_newline (takeWhile is_space (x # xs))
   = (is_space x \<and> (x = 10 \<or> list_ex is_newline (takeWhile is_space xs)))"
  by (auto simp: is_newline_def)

lemma successively_dropWhile: "successively P xs \<Longrightarrow> successively P (dropWhile Q xs)"
  by (induction xs) (auto simp: successively_Cons)

lemma trim_newlines_adjacent: "successively no_hh s \<Longrightarrow> successively adjacent_ok (trim_newlines s)"
proof (induction s rule: trim_newlines.induct)
  case 1
  show ?case by simp
next
  case (2 x xs)
  from "2.prems" have tl: "successively no_hh xs" by (auto simp: successively_Cons)
  show ?case
  proof (cases "list_ex is_newline (takeWhile is_space (x # xs))")
    case True
    let ?r = "dropWhile is_space xs"
    have eq: "trim_newlines (x # xs) = 10 # trim_newlines ?r"
      using True by (subst trim_newlines.simps) (simp only: if_True)
    have sr: "successively no_hh ?r" using tl by (rule successively_dropWhile)
    have adj: "successively adjacent_ok (trim_newlines ?r)"
      using "2.IH"(1) [OF True sr] .
    have "trim_newlines ?r = [] \<or> adjacent_ok 10 (hd (trim_newlines ?r))"
    proof (cases ?r)
      case Nil
      show ?thesis unfolding Nil by simp
    next
      case (Cons y ys)
      with dropWhile_head [of is_space xs] have y: "\<not> is_space y" by simp
      then have "\<not> list_ex is_newline (takeWhile is_space (y # ys))" by simp
      with trim_newlines_hd [of y ys] have "hd (trim_newlines (y # ys)) = y" by simp
      moreover have "y \<noteq> 10" using y is_space_10 by auto
      ultimately show ?thesis
        unfolding Cons using y by (simp add: adjacent_ok_def hspace_def)
    qed
    with adj show ?thesis unfolding eq by (auto simp: successively_Cons)
  next
    case False
    have eq: "trim_newlines (x # xs) = x # trim_newlines xs"
      using False by (subst trim_newlines.simps) (simp only: if_False)
    have adj: "successively adjacent_ok (trim_newlines xs)"
      using "2.IH"(2) [OF False tl] .
    have "trim_newlines xs = [] \<or> adjacent_ok x (hd (trim_newlines xs))"
    proof (cases xs)
      case Nil
      then show ?thesis by simp
    next
      case (Cons y ys)
      have c: "\<not> (is_space x \<and> (x = 10 \<or> list_ex is_newline (takeWhile is_space xs)))"
        using False unfolding newline_run_Cons .
      from "2.prems" Cons have hh: "\<not> (hspace x \<and> hspace y)"
        by (simp add: no_hh_def)
      show ?thesis
      proof (cases "list_ex is_newline (takeWhile is_space (y # ys))")
        case True
        with c Cons have nsp: "\<not> is_space x" by auto
        then have "x \<noteq> 10" using is_space_10 by auto
        moreover have "\<not> hspace x" using nsp is_space_hspace by auto
        moreover have "hd (trim_newlines (y # ys)) = 10"
          using trim_newlines_hd [of y ys] True by simp
        ultimately show ?thesis
          unfolding Cons using nsp by (simp add: adjacent_ok_def)
      next
        case ny: False
        have h: "hd (trim_newlines (y # ys)) = y"
          using trim_newlines_hd [of y ys] ny by simp
        have a: "\<not> (x = 10 \<and> is_space y)"
          using c is_space_10 by auto
        have b: "\<not> (is_space x \<and> y = 10)"
        proof
          assume "is_space x \<and> y = 10"
          then have "is_space x" "list_ex is_newline (takeWhile is_space (y # ys))"
            using is_space_10 by (simp_all add: is_newline_def)
          with c Cons show False by simp
        qed
        show ?thesis unfolding Cons h using hh a b by (simp add: adjacent_ok_def)
      qed
    qed
    with adj show ?thesis unfolding eq by (auto simp: successively_Cons)
  qed
qed

lemma strip_decomp: "\<exists>pre post. s = pre @ strip s @ post"
proof -
  let ?D = "dropWhile is_space s"
  have 1: "s = takeWhile is_space s @ ?D" by simp
  have "rev (takeWhile is_space (rev ?D) @ dropWhile is_space (rev ?D)) = rev (rev ?D)"
    by (simp only: takeWhile_dropWhile_id)
  then have "rev (dropWhile is_space (rev ?D)) @ rev (takeWhile is_space (rev ?D)) = ?D"
    by (simp only: rev_append rev_rev_ident)
  then have 2: "?D = strip s @ rev (takeWhile is_space (rev ?D))"
    unfolding strip_def by (rule sym)
  have "s = takeWhile is_space s @ strip s @ rev (takeWhile is_space (rev ?D))"
    by (subst 1, subst 2) (rule refl)
  then show ?thesis by blast
qed

lemma strip_ends:
  assumes "strip s \<noteq> []"
  shows "\<not> is_space (hd (strip s)) \<and> \<not> is_space (last (strip s))"
proof -
  let ?D = "dropWhile is_space s"
  let ?E = "dropWhile is_space (rev ?D)"
  have s: "strip s = rev ?E" by (simp add: strip_def)
  from assms s have E: "?E \<noteq> []" by simp
  have D: "?D \<noteq> []"
  proof
    assume "?D = []"
    then have "?E = []" by (simp only: rev.simps dropWhile.simps)
    with E show False ..
  qed
  from dropWhile_head [of is_space "rev ?D"] E have hE: "\<not> is_space (hd ?E)" by blast
  have l: "\<not> is_space (last (strip s))"
    unfolding s last_rev by (rule hE)
  have "last ?E = last (rev ?D)"
    using E by (metis dropWhile_eq_drop last_drop drop_eq_Nil not_le)
  then have "hd (rev ?E) = hd ?D"
    unfolding hd_rev last_rev .
  then have h: "hd (strip s) = hd ?D" unfolding s .
  from dropWhile_head [of is_space s] D have "\<not> is_space (hd ?D)" by blast
  then have "\<not> is_space (hd (strip s))" unfolding h .
  with l show ?thesis by blast
qed

lemma replace_char_gone: "old \<notin> set new \<Longrightarrow> old \<notin> set (replace_char old new s)"
  by (auto simp: replace_char_def split: if_splits)

lemma replace_char_keeps_absent:
  "c \<notin> set s \<Longrightarrow> c \<notin> set new \<Longrightarrow> c \<notin> set (replace_char old new s)"
  using replace_char_chars [of old new s] by auto

lemma str_hyphen: "str ''-'' = [45]"
  by (simp add: str_def)

lemma replaced_chars:
  "c \<in> set (replace_char 8210 (str ''-'') (replace_char 8212 (str ''-'')
       (replace_char 8211 (str ''-'') (replace_char 160 (str '' '') T))))
   \<Longrightarrow> c \<noteq> 160 \<and> c \<noteq> 8211 \<and> c \<noteq> 8212 \<and> c \<noteq> 8210"
proof -
  let ?a = "replace_char 160 (str '' '') T"
  let ?b = "replace_char 8211 (str ''-'') ?a"
  let ?c = "replace_char 8212 (str ''-'') ?b"
  let ?d = "replace_char 8210 (str ''-'') ?c"
  assume c: "c \<in> set ?d"
  have a1: "160 \<notin> set ?a" by (rule replace_char_gone) (simp add: str_space)
  have b1: "160 \<notin> set ?b" using a1 by (rule replace_char_keeps_absent) (simp add: str_hyphen)
  have b2: "8211 \<notin> set ?b" by (rule replace_char_gone) (simp add: str_hyphen)
  have c1: "160 \<notin> set ?c" using b1 by (rule replace_char_keeps_absent) (simp add: str_hyphen)
  have c2: "8211 \<notin> set ?c" using b2 by (rule replace_char_keeps_absent) (simp add: str_hyphen)
  have c3: "8212 \<notin> set ?c" by (rule replace_char_gone) (simp add: str_hyphen)
  have d1: "160 \<notin> set ?d" using c1 by (rule replace_char_keeps_absent) (simp add: str_hyphen)
  have d2: "8211 \<notin> set ?d" using c2 by (rule replace_char_keeps_absent) (simp add: str_hyphen)
  have d3: "8212 \<notin> set ?d" using c3 by (rule replace_char_keeps_absent) (simp add: str_hyphen)
  have d4: "8210 \<notin> set ?d" by (rule replace_char_gone) (simp add: str_hyphen)
  from c d1 d2 d3 d4 show ?thesis by blast
qed

lemma strip_chars: "set (strip s) \<subseteq> set s"
proof -
  obtain pre post where "s = pre @ strip s @ post" using strip_decomp [of s] by blast
  then have "set s = set pre \<union> set (strip s) \<union> set post"
    by (metis set_append sup_assoc)
  then show ?thesis by blast
qed

lemma strip_successively: "successively P s \<Longrightarrow> successively P (strip s)"
proof -
  assume a: "successively P s"
  obtain pre post where e: "s = pre @ strip s @ post" using strip_decomp [of s] by blast
  have "successively P (pre @ strip s @ post)" using a e by simp
  then show ?thesis by (simp only: successively_append_iff)
qed

lemma normalize_text_normalized: "normalized (normalize_text T)"
proof -
  let ?r = "replace_char 8210 (str ''-'') (replace_char 8212 (str ''-'')
       (replace_char 8211 (str ''-'') (replace_char 160 (str '' '') T)))"
  let ?t = "trim_newlines (collapse ?r)"
  have n: "normalize_text T = strip ?t" by (rule normalize_text_eq)
  have ch: "c \<noteq> 160 \<and> c \<noteq> 8211 \<and> c \<noteq> 8212 \<and> c \<noteq> 8210 \<and> c \<noteq> 9" if "c \<in> set (strip ?t)" for c
  proof -
    from that strip_chars have "c \<in> set ?t" by blast
    then have "c = 10 \<or> c \<in> set (collapse ?r)" by (rule trim_newlines_chars)
    then have "c = 10 \<or> c = 32 \<or> (c \<in> set ?r \<and> \<not> hspace c)"
      using collapse_chars [of c ?r] by blast
    then show ?thesis using replaced_chars [of c T] by (auto simp: hspace_def)
  qed
  have adj: "successively adjacent_ok (strip ?t)"
    by (rule strip_successively) (rule trim_newlines_adjacent, rule collapse_no_hh)
  have ends: "strip ?t \<noteq> [] \<longrightarrow> \<not> is_space (hd (strip ?t)) \<and> \<not> is_space (last (strip ?t))"
    using strip_ends [of ?t] by blast
  show ?thesis unfolding n normalized_def using ch adj ends by blast
qed

lemma normalize_text_idem: "normalize_text (normalize_text T) = normalize_text T"
  by (rule normalized_fixed) (rule normalize_text_normalized)

text \<open>
  C7. Normalizing a normalized text changes nothing: for every text \<open>T\<close>,
  \<open>_normalize_text(_normalize_text(T))\<close> is \<open>_normalize_text(T)\<close>. Every output is in
  normal form (no non-breaking space, no en, em or figure dash, no tab and no two spaces
  in a row, no white space beside a line feed, none at either end), and the texts in
  normal form are fixed points.
\<close>

theorem normalize_text_idempotent:
  "normalize_text (normalize_text T) = normalize_text T
   \<and> normalized (normalize_text T)
   \<and> (normalized S \<longrightarrow> normalize_text S = S)"
  using normalize_text_idem [of T] normalize_text_normalized [of T] normalized_fixed [of S]
  by blast

theorem normalize_text_idempotent_witness:
  "normalize_text (normalize_text [32, 97, 160, 9, 10, 32, 8211, 98, 32])
     = normalize_text [32, 97, 160, 9, 10, 32, 8211, 98, 32]
   \<and> normalize_text [32, 97, 160, 9, 10, 32, 8211, 98, 32] = [97, 10, 45, 98]
   \<and> normalized [97, 10, 45, 98]
   \<and> normalize_text [97, 10, 45, 98] = [97, 10, 45, 98]"
proof -
  have c: "normalize_text [32, 97, 160, 9, 10, 32, 8211, 98, 32] = [97, 10, 45, 98]"
    by code_simp
  have n: "normalized [97, 10, 45, 98]"
    by code_simp
  show ?thesis
    using normalize_text_idempotent [of "[32, 97, 160, 9, 10, 32, 8211, 98, 32]" "[97, 10, 45, 98]"] c n
    by simp
qed

end
